theory Spec2Isabelle
  imports Main "HOL-Library.Word"
begin

unbundle bit_operations_syntax

section \<open>Bytes, errors and panics\<close>

type_synonym byte = "8 word"
type_synonym bytes = "byte list"

text \<open>
  A shallow embedding of the Go packages \<open>common\<close>, \<open>cmac\<close> and \<open>siv\<close>.  Byte slices are
  lists of 8-bit words; a nil slice and an empty slice are both the empty list.  Slices
  are values: a write past the length of a slice into a backing array it shares with
  another slice (as \<open>append\<close> may do) is not part of the model.  Names follow the source.
  Where a name is taken in HOL it is changed: \<open>dbl\<close> is \<open>dbl_bytes\<close>, the constant
  \<open>mask\<close> is \<open>siv_mask\<close>, the package function \<open>cmac.Sum\<close> is \<open>cmac_Sum\<close> (the method is
  \<open>Sum\<close>), the field \<open>key\<close> of \<open>aessiv\<close> is \<open>siv_key\<close>.  The constants \<open>zero\<close>, \<open>rb\<close> and
  \<open>blockSize\<close> are declared with the same values in more than one package and are
  defined once.
\<close>

text \<open>
  The error values of packages \<open>cmac\<close> and \<open>siv\<close>, and Go panics.  A function that can
  return an error or panic yields \<open>error + 'a\<close>; \<open>Inl\<close> carries the error.
  \<open>Panic msg\<close> is \<open>panic(msg)\<close>, \<open>PanicError e\<close> is \<open>panic(e.Error())\<close>.
  \<open>KeySizeError n\<close> is the error of \<open>aes.NewCipher\<close> on a key of \<open>n\<close> bytes.
\<close>

datatype error =
    errUnsupportedKeySize
  | errAlreadyFinished
  | errKeySizeNotSupported
  | errInvalidCiphertextLength
  | errIntegrityError
  | KeySizeError nat
  | Panic string
  | PanicError error

definition bindE :: "error + 'a \<Rightarrow> ('a \<Rightarrow> error + 'b) \<Rightarrow> error + 'b" where
  "bindE m f = (case m of Inl e \<Rightarrow> Inl e | Inr x \<Rightarrow> f x)"

text \<open>
  \<open>if err != nil { panic(err.Error()) }\<close> after a call: a returned error becomes a
  panic, a panic raised inside the call stays what it is.
\<close>

fun panicOnError :: "error \<Rightarrow> error" where
  "panicOnError (Panic m) = Panic m"
| "panicOnError (PanicError e) = PanicError e"
| "panicOnError e = PanicError e"

section \<open>Package common\<close>

definition invalidXorParamsMessage :: string where
  "invalidXorParamsMessage =
     ''invalid input for xor function - the both arguments must have the same length''"

definition Msb :: byte where
  "Msb = 0x80"

definition blockSize :: nat where
  "blockSize = 16"

definition firstPaddingOctet :: byte where
  "firstPaddingOctet = 0x80"

text \<open>\<open>Xor\<close>: panics on unequal lengths, otherwise the bytewise exclusive or.\<close>

definition Xor :: "bytes \<Rightarrow> bytes \<Rightarrow> error + bytes" where
  "Xor a b =
     (if length a \<noteq> length b then Inl (Panic invalidXorParamsMessage)
      else Inr (map2 (XOR) a b))"

text \<open>
  \<open>ShiftLeft\<close>: the loop runs from the last byte to the first, carrying \<open>bit\<close> (here \<open>carry\<close>).
  \<open>ShiftLeft_loop data\<close> is the pair (result, bit) once the loop has passed all of \<open>data\<close>;
  on \<open>x # xs\<close> the bytes \<open>xs\<close> to the right have been processed before \<open>x\<close>.
\<close>

fun ShiftLeft_loop :: "bytes \<Rightarrow> bytes \<times> byte" where
  "ShiftLeft_loop [] = ([], 0)"
| "ShiftLeft_loop (x # xs) =
     (case ShiftLeft_loop xs of
        (result, carry) \<Rightarrow> ((push_bit 1 x OR carry) # result, drop_bit 7 (x AND Msb)))"

definition ShiftLeft :: "bytes \<Rightarrow> bytes" where
  "ShiftLeft data = fst (ShiftLeft_loop data)"

text \<open>\<open>Padding\<close>: append \<open>0x80\<close>, then zero bytes up to the block size.\<close>

definition Padding :: "bytes \<Rightarrow> bytes" where
  "Padding data =
     (let result = data @ [firstPaddingOctet]
      in if length result < blockSize
         then result @ replicate (blockSize - length result) 0
         else result)"

section \<open>Block helpers of package siv\<close>

definition siv_mask :: bytes where
  "siv_mask = [0xff, 0xff, 0xff, 0xff, 0xff, 0xff, 0xff, 0xff,
               0x7f, 0xff, 0xff, 0xff, 0x7f, 0xff, 0xff, 0xff]"

definition one :: bytes where
  "one = [0x00, 0x00, 0x00, 0x00, 0x00, 0x00, 0x00, 0x00,
          0x00, 0x00, 0x00, 0x00, 0x00, 0x00, 0x00, 0x01]"

definition zero :: bytes where
  "zero = [0x00, 0x00, 0x00, 0x00, 0x00, 0x00, 0x00, 0x00,
           0x00, 0x00, 0x00, 0x00, 0x00, 0x00, 0x00, 0x00]"

definition rb :: bytes where
  "rb = [0x00, 0x00, 0x00, 0x00, 0x00, 0x00, 0x00, 0x00,
         0x00, 0x00, 0x00, 0x00, 0x00, 0x00, 0x00, 0x87]"

definition xorEndInvalidParameters :: string where
  "xorEndInvalidParameters =
     ''invalid parameters for xorEnd function, len(a) must be greater or equal than len(b)''"

definition bitAndInvalidParameters :: string where
  "bitAndInvalidParameters =
     ''invalid parameters for bitEnd function, len(a) must be equal to len(b)''"

text \<open>
  \<open>xorEnd\<close>: the first loop copies \<open>a[0..offset)\<close>, the second writes
  \<open>a[i+offset] ^ b[i]\<close> for every index of \<open>b\<close>.
\<close>

definition xorEnd :: "bytes \<Rightarrow> bytes \<Rightarrow> error + bytes" where
  "xorEnd a b =
     (if length a < length b then Inl (Panic xorEndInvalidParameters)
      else let offset = length a - length b
           in Inr (take offset a @ map2 (XOR) (drop offset a) b))"

text \<open>\<open>dbl\<close>: reading \<open>d[0]\<close> of an empty slice is a run-time panic.\<close>

definition dbl_bytes :: "bytes \<Rightarrow> error + bytes" where
  "dbl_bytes d =
     (let result = ShiftLeft d
      in case d of
           [] \<Rightarrow> Inl (Panic ''index out of range'')
         | d0 # _ \<Rightarrow> if d0 AND Msb = Msb then Xor result rb else Inr result)"

definition bitAnd :: "bytes \<Rightarrow> bytes \<Rightarrow> error + bytes" where
  "bitAnd a b =
     (if length a \<noteq> length b then Inl (Panic bitAndInvalidParameters)
      else Inr (map2 (AND) a b))"

section \<open>The external block cipher\<close>

text \<open>
  The AES block cipher is outside the repository.  It is a parameter
  \<open>E :: bytes \<Rightarrow> bytes \<Rightarrow> bytes\<close>: \<open>E k\<close> encrypts one block under the key \<open>k\<close>.
  \<open>aes_NewCipher\<close> is \<open>aes.NewCipher\<close>: it accepts keys of 16, 24 and 32 bytes only.
  \<open>Encrypt blk dst src\<close> is \<open>cipher.Block.Encrypt\<close>: it panics unless both slices hold a
  full block, and overwrites the first block of \<open>dst\<close>; the value is the new \<open>dst\<close>.
\<close>

definition aes_NewCipher :: "(bytes \<Rightarrow> bytes \<Rightarrow> bytes) \<Rightarrow> bytes \<Rightarrow> error + (bytes \<Rightarrow> bytes)" where
  "aes_NewCipher E k =
     (if length k = 16 \<or> length k = 24 \<or> length k = 32 then Inr (E k)
      else Inl (KeySizeError (length k)))"

definition Encrypt :: "(bytes \<Rightarrow> bytes) \<Rightarrow> bytes \<Rightarrow> bytes \<Rightarrow> error + bytes" where
  "Encrypt blk dst src =
     (if length src < blockSize then Inl (Panic ''crypto/aes: input not full block'')
      else if length dst < blockSize then Inl (Panic ''crypto/aes: output not full block'')
      else Inr (blk (take blockSize src) @ drop blockSize dst))"

text \<open>A block function maps 16-byte blocks to 16-byte blocks.\<close>

definition block_cipher :: "(bytes \<Rightarrow> bytes) \<Rightarrow> bool" where
  "block_cipher blk \<longleftrightarrow> (\<forall>b. length b = blockSize \<longrightarrow> length (blk b) = blockSize)"

text \<open>
  Modelled from the spec: the counter-mode stream transform (\<open>cipher.NewCTR\<close> and
  \<open>XORKeyStream\<close> of the standard library) is not part of the repository.  The spec
  describes it as stream encryption formed by encrypting successive counter values and
  XOR-ing the result with the input.  The counter starts at the IV and is incremented as a
  big-endian integer, wrapping around.  \<open>NewCTR\<close> panics unless the IV is one block long.
\<close>

fun ctr_incr_loop :: "bytes \<Rightarrow> bytes \<times> bool" where
  "ctr_incr_loop [] = ([], True)"
| "ctr_incr_loop (x # xs) =
     (case ctr_incr_loop xs of
        (rest, carry) \<Rightarrow> if carry then ((x + 1) # rest, x + 1 = 0) else (x # rest, False))"

definition ctr_incr :: "bytes \<Rightarrow> bytes" where
  "ctr_incr c = fst (ctr_incr_loop c)"

fun keyStream :: "(bytes \<Rightarrow> bytes) \<Rightarrow> bytes \<Rightarrow> nat \<Rightarrow> bytes" where
  "keyStream blk ctr 0 = []"
| "keyStream blk ctr (Suc n) = blk ctr @ keyStream blk (ctr_incr ctr) n"

definition CTR_XORKeyStream :: "(bytes \<Rightarrow> bytes) \<Rightarrow> bytes \<Rightarrow> bytes \<Rightarrow> error + bytes" where
  "CTR_XORKeyStream blk iv src =
     (if length iv \<noteq> blockSize
      then Inl (Panic ''cipher.NewCTR: IV length must equal block size'')
      else Inr (map2 (XOR) src
                  (take (length src)
                     (keyStream blk iv ((length src + blockSize - 1) div blockSize)))))"

section \<open>Package cmac\<close>

text \<open>
  The struct \<open>cmac\<close>.  \<open>aesEncryptor\<close> is the \<open>cipher.Block\<close> made from the key: the
  function that encrypts one block.  A nil slice is the empty list.
\<close>

record cmac =
  aesEncryptor :: "bytes \<Rightarrow> bytes"
  state :: bytes
  key :: bytes
  accumulator :: bytes
  finished :: bool
  hadData :: bool
  k1 :: bytes
  k2 :: bytes

text \<open>\<open>writeFullBlock\<close> (pointer receiver): the value is the updated context.\<close>

definition writeFullBlock :: "cmac \<Rightarrow> bytes \<Rightarrow> error + cmac" where
  "writeFullBlock c block =
     bindE (Xor (state c) block) (\<lambda>s.
     bindE (Encrypt (aesEncryptor c) s s) (\<lambda>s'.
     Inr (c\<lparr>state := s'\<rparr>)))"

text \<open>
  The loop of \<open>Write\<close>, \<open>n\<close> iterations: each one chains the first block of the
  accumulator and drops it.  Slicing \<open>accumulator[0:blockSize]\<close> of a shorter
  accumulator is a run-time panic.
\<close>

fun Write_loop :: "nat \<Rightarrow> cmac \<Rightarrow> error + cmac" where
  "Write_loop 0 c = Inr c"
| "Write_loop (Suc n) c =
     (if length (accumulator c) < blockSize then Inl (Panic ''slice bounds out of range'')
      else bindE (writeFullBlock c (take blockSize (accumulator c))) (\<lambda>c'.
           Write_loop n (c'\<lparr>accumulator := drop blockSize (accumulator c')\<rparr>)))"

text \<open>
  \<open>Write\<close> (pointer receiver).  \<open>Inr (c', n)\<close> is the return \<open>(n, nil)\<close> with the
  context updated to \<open>c'\<close>; \<open>Inl errAlreadyFinished\<close> is the return
  \<open>(0, errAlreadyFinished)\<close>, which leaves the context as it was.
\<close>

definition Write :: "cmac \<Rightarrow> bytes \<Rightarrow> error + (cmac \<times> nat)" where
  "Write c p =
     (if finished c then Inl errAlreadyFinished
      else if length p = 0 then Inr (c, 0)
      else let c1 = c\<lparr>hadData := True, accumulator := accumulator c @ p\<rparr>;
               numFullBlocks = length (accumulator c1) div blockSize
           in if numFullBlocks \<le> 1 then Inr (c1, length p)
              else bindE (Write_loop (numFullBlocks - 1) c1) (\<lambda>c2. Inr (c2, length p)))"

text \<open>
  \<open>Sum\<close> has a value receiver: its body works on a copy of the context.
  \<open>Sum_body c b\<close> is the pair of that local copy when the body returns, and the
  returned slice.  The caller only gets the slice (\<open>Sum\<close>); the caller's context is
  not changed by the call.
\<close>

definition Sum_body :: "cmac \<Rightarrow> bytes \<Rightarrow> error + (cmac \<times> bytes)" where
  "Sum_body c b =
     bindE
       (if hadData c then
          if length (accumulator c) = blockSize then
            bindE (Xor (accumulator c) (k1 c)) (\<lambda>a. Inr (c\<lparr>accumulator := a\<rparr>))
          else
            bindE
              (if length (accumulator c) > blockSize then
                 bindE (writeFullBlock c (take blockSize (accumulator c))) (\<lambda>c'.
                 Inr (c'\<lparr>accumulator := drop blockSize (accumulator c')\<rparr>))
               else Inr c)
              (\<lambda>c'. bindE (Xor (Padding (accumulator c')) (k2 c')) (\<lambda>a.
                     Inr (c'\<lparr>accumulator := a\<rparr>)))
        else
          bindE (Xor (Padding []) (k2 c)) (\<lambda>a. Inr (c\<lparr>accumulator := a\<rparr>)))
       (\<lambda>c1.
          bindE (Xor (accumulator c1) (state c1)) (\<lambda>y.
          bindE (Encrypt (aesEncryptor c1) y y) (\<lambda>y'.
          Inr (c1\<lparr>finished := True\<rparr>, b @ y'))))"

definition Sum :: "cmac \<Rightarrow> bytes \<Rightarrow> error + bytes" where
  "Sum c b = bindE (Sum_body c b) (\<lambda>(c_local, out). Inr out)"

definition generateSubKey :: "cmac \<Rightarrow> error + (bytes \<times> bytes)" where
  "generateSubKey c =
     bindE (Encrypt (aesEncryptor c) (replicate blockSize 0) zero) (\<lambda>l.
     bindE (case l of
              [] \<Rightarrow> Inl (Panic ''index out of range'')
            | l0 # _ \<Rightarrow> if l0 AND Msb = Msb then Xor (ShiftLeft l) rb
                        else Inr (ShiftLeft l)) (\<lambda>k1'.
     bindE (case k1' of
              [] \<Rightarrow> Inl (Panic ''index out of range'')
            | k10 # _ \<Rightarrow> if k10 AND Msb = Msb then Xor (ShiftLeft k1') rb
                         else Inr (ShiftLeft k1')) (\<lambda>k2'.
     Inr (k1', k2'))))"

definition init :: "cmac \<Rightarrow> error + cmac" where
  "init c =
     bindE (generateSubKey c) (\<lambda>(k1', k2').
     Inr (c\<lparr>k1 := k1', k2 := k2', accumulator := [], state := replicate 16 0,
            finished := False, hadData := False\<rparr>))"

definition Reset :: "cmac \<Rightarrow> error + cmac" where
  "Reset c = init c"

definition NewCmac :: "(bytes \<Rightarrow> bytes \<Rightarrow> bytes) \<Rightarrow> bytes \<Rightarrow> error + cmac" where
  "NewCmac E ky =
     (if length ky = 16 \<or> length ky = 24 \<or> length ky = 32 then
        bindE (aes_NewCipher E ky) (\<lambda>a.
        init \<lparr>aesEncryptor = a, state = [], key = ky, accumulator = [],
              finished = False, hadData = False, k1 = [], k2 = []\<rparr>)
      else Inl errUnsupportedKeySize)"

text \<open>The package function \<open>cmac.Sum(key, data)\<close>: an error becomes a panic.\<close>

definition cmac_Sum :: "(bytes \<Rightarrow> bytes \<Rightarrow> bytes) \<Rightarrow> bytes \<Rightarrow> bytes \<Rightarrow> error + bytes" where
  "cmac_Sum E ky data =
     (case NewCmac E ky of
        Inl err \<Rightarrow> Inl (panicOnError err)
      | Inr c \<Rightarrow>
          (case Write c data of
             Inl err \<Rightarrow> Inl (panicOnError err)
           | Inr (c', n) \<Rightarrow> Sum c' []))"

section \<open>Package siv\<close>

text \<open>
  The struct \<open>aessiv\<close>: its field \<open>key\<close> is \<open>siv_key\<close> here (the name \<open>key\<close> is the
  field of \<open>cmac\<close>).  The embedded \<open>cipher.AEAD\<close> interface is never set nor used.
\<close>

record aessiv =
  siv_key :: bytes

text \<open>
  The loop of \<open>s2v\<close> over the associated data, from the first element to the last.
  \<open>dbl(d)\<close> is evaluated before \<open>cmac.Sum(key, aad[i])\<close>.
\<close>

fun s2v_loop :: "(bytes \<Rightarrow> bytes \<Rightarrow> bytes) \<Rightarrow> bytes \<Rightarrow> bytes \<Rightarrow> bytes list \<Rightarrow> error + bytes" where
  "s2v_loop E ky d [] = Inr d"
| "s2v_loop E ky d (x # xs) =
     bindE (dbl_bytes d) (\<lambda>dd.
     bindE (cmac_Sum E ky x) (\<lambda>m.
     bindE (Xor dd m) (\<lambda>d'.
     s2v_loop E ky d' xs)))"

definition s2v :: "(bytes \<Rightarrow> bytes \<Rightarrow> bytes) \<Rightarrow> bytes \<Rightarrow> bytes list \<Rightarrow> bytes \<Rightarrow> error + bytes" where
  "s2v E ky aad plaintext =
     (if length aad = 0 then cmac_Sum E ky one
      else
        bindE (cmac_Sum E ky zero) (\<lambda>d0.
        bindE (s2v_loop E ky d0 aad) (\<lambda>d.
        bindE (if length plaintext \<ge> 16 then xorEnd plaintext d
               else bindE (dbl_bytes d) (\<lambda>dd. Xor dd (Padding plaintext))) (\<lambda>t.
        cmac_Sum E ky t))))"

definition SealWithMultipleAAD ::
  "(bytes \<Rightarrow> bytes \<Rightarrow> bytes) \<Rightarrow> aessiv \<Rightarrow> bytes \<Rightarrow> bytes \<Rightarrow> bytes list \<Rightarrow> error + bytes" where
  "SealWithMultipleAAD E a dst plaintext additionalData =
     (let sivKey = take (length (siv_key a) div 2) (siv_key a);
          encKey = drop (length (siv_key a) div 2) (siv_key a)
      in bindE (s2v E sivKey additionalData plaintext) (\<lambda>v.
         bindE (bitAnd v siv_mask) (\<lambda>iv.
         let dst1 = dst @ v
         in case aes_NewCipher E encKey of
              Inl err \<Rightarrow> Inl (panicOnError err)
            | Inr aesEcb \<Rightarrow>
                bindE (CTR_XORKeyStream aesEcb iv plaintext) (\<lambda>ciphertext.
                Inr (dst1 @ ciphertext)))))"

definition OpenWithMultipleAAD ::
  "(bytes \<Rightarrow> bytes \<Rightarrow> bytes) \<Rightarrow> aessiv \<Rightarrow> bytes \<Rightarrow> bytes \<Rightarrow> bytes list \<Rightarrow> error + bytes" where
  "OpenWithMultipleAAD E a dst ciphertext additionalData =
     (if length ciphertext < blockSize + 1 then Inl errInvalidCiphertextLength
      else
        let v = take blockSize ciphertext;
            c = drop blockSize ciphertext;
            k1' = take (length (siv_key a) div 2) (siv_key a);
            k2' = drop (length (siv_key a) div 2) (siv_key a)
        in bindE (bitAnd v siv_mask) (\<lambda>iv.
           case aes_NewCipher E k2' of
             Inl err \<Rightarrow> Inl (panicOnError err)
           | Inr aesEcb \<Rightarrow>
               bindE (CTR_XORKeyStream aesEcb iv c) (\<lambda>plaintext.
               bindE (s2v E k1' additionalData plaintext) (\<lambda>t.
               if t = v then Inr (dst @ plaintext)
               else Inl errIntegrityError))))"

definition Seal ::
  "(bytes \<Rightarrow> bytes \<Rightarrow> bytes) \<Rightarrow> aessiv \<Rightarrow> bytes \<Rightarrow> bytes \<Rightarrow> bytes \<Rightarrow> bytes \<Rightarrow> error + bytes" where
  "Seal E a dst nonce plaintext additionalData =
     SealWithMultipleAAD E a dst plaintext [additionalData]"

definition Open ::
  "(bytes \<Rightarrow> bytes \<Rightarrow> bytes) \<Rightarrow> aessiv \<Rightarrow> bytes \<Rightarrow> bytes \<Rightarrow> bytes \<Rightarrow> bytes \<Rightarrow> error + bytes" where
  "Open E a dst nonce ciphertext additionalData =
     OpenWithMultipleAAD E a dst ciphertext [additionalData]"


section \<open>A sample block function\<close>

text \<open>
  The theorems below hold for every block function.  To instantiate them at concrete
  inputs a sample block function is used; it stands for no real cipher.
\<close>

definition sample_cipher :: "bytes \<Rightarrow> bytes \<Rightarrow> bytes" where
  "sample_cipher ky blk =
     take 16 (map2 (XOR) (blk @ replicate 16 0) (ky @ replicate 16 0xa5))"

section \<open>Test data of the repository\<close>

text \<open>The byte strings \<open>key\<close>, \<open>ad\<close> and \<open>plaintext\<close> of the package's test file.\<close>

definition tv_key :: bytes where
  "tv_key = [0xff, 0xfe, 0xfd, 0xfc, 0xfb, 0xfa, 0xf9, 0xf8,
             0xf7, 0xf6, 0xf5, 0xf4, 0xf3, 0xf2, 0xf1, 0xf0,
             0xf0, 0xf1, 0xf2, 0xf3, 0xf4, 0xf5, 0xf6, 0xf7,
             0xf8, 0xf9, 0xfa, 0xfb, 0xfc, 0xfd, 0xfe, 0xff]"

definition tv_ad :: bytes where
  "tv_ad = [0x10, 0x11, 0x12, 0x13, 0x14, 0x15, 0x16, 0x17,
            0x18, 0x19, 0x1a, 0x1b, 0x1c, 0x1d, 0x1e, 0x1f,
            0x20, 0x21, 0x22, 0x23, 0x24, 0x25, 0x26, 0x27]"

definition tv_plaintext :: bytes where
  "tv_plaintext = [0x11, 0x22, 0x33, 0x44, 0x55, 0x66, 0x77, 0x88,
                   0x99, 0xaa, 0xbb, 0xcc, 0xdd, 0xee]"

section \<open>Notions used to state the properties\<close>

text \<open>
  The invariant of a context between calls: a block function, a 16-byte chaining value,
  16-byte subkeys, and fewer than two blocks in the accumulator.
\<close>

definition cmac_inv :: "cmac \<Rightarrow> bool" where
  "cmac_inv c \<longleftrightarrow>
     block_cipher (aesEncryptor c) \<and> length (state c) = blockSize \<and>
     length (k1 c) = blockSize \<and> length (k2 c) = blockSize \<and>
     length (accumulator c) < 2 * blockSize"

text \<open>
  The contexts a caller can hold: made by \<open>NewCmac\<close>, then changed by \<open>Write\<close> and
  \<open>Reset\<close>.  \<open>Sum\<close> has a value receiver and changes no context.
\<close>

inductive reachable :: "(bytes \<Rightarrow> bytes \<Rightarrow> bytes) \<Rightarrow> cmac \<Rightarrow> bool"
  for E :: "bytes \<Rightarrow> bytes \<Rightarrow> bytes" where
  reachable_new: "NewCmac E ky = Inr c \<Longrightarrow> reachable E c"
| reachable_write: "reachable E c \<Longrightarrow> Write c p = Inr (c', n) \<Longrightarrow> reachable E c'"
| reachable_reset: "reachable E c \<Longrightarrow> Reset c = Inr c' \<Longrightarrow> reachable E c'"

text \<open>
  What claim C2 says \<open>bitAnd(V, mask)\<close> is: \<open>V\<close> with the two most significant bits of
  the tag cleared, that is the two top bits of its first byte.
\<close>

definition clear_two_msb :: "bytes \<Rightarrow> bytes" where
  "clear_two_msb v = (case v of [] \<Rightarrow> [] | v0 # rest \<Rightarrow> (v0 AND 0x3f) # rest)"

text \<open>
  The fold of claim C5, in the spec's words.  \<open>CMAC\<close> and \<open>double\<close> are the values of
  \<open>cmac.Sum\<close> and \<open>dbl\<close> where these return (the empty string where they panic);
  \<open>S2V_spec\<close> is the specified computation: \<open>foldl\<close> runs from the first element of
  the list to the last.
\<close>

definition CMAC :: "(bytes \<Rightarrow> bytes \<Rightarrow> bytes) \<Rightarrow> bytes \<Rightarrow> bytes \<Rightarrow> bytes" where
  "CMAC E ky m = (case cmac_Sum E ky m of Inr t \<Rightarrow> t | Inl e \<Rightarrow> [])"

definition double :: "bytes \<Rightarrow> bytes" where
  "double d = (case dbl_bytes d of Inr r \<Rightarrow> r | Inl e \<Rightarrow> [])"

definition S2V_spec :: "(bytes \<Rightarrow> bytes \<Rightarrow> bytes) \<Rightarrow> bytes \<Rightarrow> bytes list \<Rightarrow> bytes \<Rightarrow> bytes" where
  "S2V_spec E ky aad message =
     (if aad = [] then CMAC E ky one
      else
        let D = foldl (\<lambda>D element. map2 (XOR) (double D) (CMAC E ky element))
                  (CMAC E ky zero) aad;
            T = (if length message \<ge> 16
                 then take (length message - 16) message
                      @ map2 (XOR) (drop (length message - 16) message) D
                 else map2 (XOR) (double D) (Padding message))
        in CMAC E ky T)"

text \<open>
  A context as \<open>NewCmac\<close> under the sample block function and the first half of
  \<open>tv_key\<close> makes it, with a given accumulator and \<open>hadData\<close> flag.
\<close>

definition sample_context :: "bytes \<Rightarrow> bool \<Rightarrow> cmac" where
  "sample_context acc had =
     \<lparr>aesEncryptor = sample_cipher (take 16 tv_key), state = zero, key = take 16 tv_key,
      accumulator = acc, finished = False, hadData = had,
      k1 = double (sample_cipher (take 16 tv_key) zero),
      k2 = double (double (sample_cipher (take 16 tv_key) zero))\<rparr>"

section \<open>Bytes and blocks: basic facts\<close>

lemma Msb_bit: "bit Msb n \<longleftrightarrow> n = 7"
proof -
  have e: "(0x80::byte) = 2 ^ 7" by simp
  show ?thesis unfolding Msb_def e bit_exp_iff by auto
qed

lemma carry_bit: "bit (drop_bit 7 ((x::byte) AND Msb)) n \<longleftrightarrow> n = 0 \<and> bit x 7"
  unfolding bit_drop_bit_eq bit_and_iff Msb_bit by auto

lemma carry_of_bool: "drop_bit 7 ((x::byte) AND Msb) = of_bool (bit x 7)"
  by (rule bit_eqI) (simp only: carry_bit bit_of_bool_iff)

lemma msb_test: "((x::byte) AND Msb = Msb) = bit x 7"
proof 
  assume "x AND Msb = Msb"
  then have "bit (x AND Msb) 7 = bit Msb 7" by simp
  then show "bit x 7" unfolding bit_and_iff Msb_bit by simp
next
  assume a: "bit x 7"
  show "x AND Msb = Msb"
    by (rule bit_eqI) (use a in \<open>auto simp only: bit_and_iff Msb_bit\<close>)
qed

lemma shift_bit: "bit (push_bit 1 (x::byte) OR of_bool p) n \<longleftrightarrow> (if n = 0 then p else n < 8 \<and> bit x (n - 1))"
  unfolding bit_or_iff bit_of_bool_iff bit_push_bit_iff
  by (auto dest: bit_imp_le_length)

lemma shift_byte_xor:
  "(push_bit 1 ((x::byte) XOR y) OR of_bool (p \<noteq> q))
   = (push_bit 1 x OR of_bool p) XOR (push_bit 1 y OR of_bool q)"
  by (rule bit_eqI) (simp only: shift_bit bit_xor_iff, auto)

lemma ShiftLeft_loop_Cons:
  "ShiftLeft_loop (x # xs) =
     ((push_bit 1 x OR snd (ShiftLeft_loop xs)) # fst (ShiftLeft_loop xs), drop_bit 7 (x AND Msb))"
  by (cases "ShiftLeft_loop xs") (simp only: ShiftLeft_loop.simps prod.case fst_conv snd_conv)

lemma snd_ShiftLeft_loop:
  "snd (ShiftLeft_loop xs) = of_bool (xs \<noteq> [] \<and> bit (hd xs) 7)"
proof (cases xs)
  case Nil
  then show ?thesis by simp
next
  case (Cons a l)
  show ?thesis unfolding Cons ShiftLeft_loop_Cons snd_conv carry_of_bool by simp
qed

lemma ShiftLeft_Cons:
  "ShiftLeft (x # xs) = (push_bit 1 x OR of_bool (xs \<noteq> [] \<and> bit (hd xs) 7)) # ShiftLeft xs"
  unfolding ShiftLeft_def ShiftLeft_loop_Cons fst_conv snd_ShiftLeft_loop ..

lemma ShiftLeft_Nil: "ShiftLeft [] = []"
  by (simp add: ShiftLeft_def)

lemma length_ShiftLeft: "length (ShiftLeft xs) = length xs"
  by (induction xs) (simp_all only: ShiftLeft_Cons ShiftLeft_Nil list.size)

lemma ShiftLeft_xor:
  "length xs = length ys \<Longrightarrow>
   ShiftLeft (map2 (XOR) xs ys) = map2 (XOR) (ShiftLeft xs) (ShiftLeft ys)"
proof (induction xs ys rule: list_induct2)
  case Nil
  then show ?case by (simp add: ShiftLeft_Nil)
next
  case (Cons x xs y ys)
  have hd7: "(map2 (XOR) xs ys \<noteq> [] \<and> bit (hd (map2 (XOR) xs ys)) 7)
     = ((xs \<noteq> [] \<and> bit (hd xs) 7) \<noteq> (ys \<noteq> [] \<and> bit (hd ys) 7))"
    using Cons.hyps by (cases xs; cases ys) (auto simp: bit_xor_iff)
  have "ShiftLeft (map2 (XOR) (x # xs) (y # ys)) = ShiftLeft ((x XOR y) # map2 (XOR) xs ys)"
    by simp
  also have "\<dots> = (push_bit 1 (x XOR y) OR of_bool ((xs \<noteq> [] \<and> bit (hd xs) 7) \<noteq> (ys \<noteq> [] \<and> bit (hd ys) 7)))
       # map2 (XOR) (ShiftLeft xs) (ShiftLeft ys)"
    unfolding ShiftLeft_Cons hd7 Cons.IH ..
  also have "\<dots> = map2 (XOR) (ShiftLeft (x # xs)) (ShiftLeft (y # ys))"
    unfolding ShiftLeft_Cons shift_byte_xor by simp
  finally show ?case .
qed


lemma Xor_eq: "length a = length b \<Longrightarrow> Xor a b = Inr (map2 (XOR) a b)"
  by (simp add: Xor_def)

lemma length_rb: "length rb = 16"
  by (simp add: rb_def)

lemma dbl_bytes_block:
  "length d = 16 \<Longrightarrow>
   dbl_bytes d = Inr (if bit (hd d) 7 then map2 (XOR) (ShiftLeft d) rb else ShiftLeft d)"
  by (cases d) (simp_all add: dbl_bytes_def msb_test Xor_eq length_ShiftLeft length_rb)

lemma map2_xor_cancel:
  "length a = length r \<Longrightarrow> length b = length r \<Longrightarrow>
   map2 (XOR) (map2 (XOR) a r) (map2 (XOR) b r) = map2 (XOR) a (b::bytes)"
  by (rule nth_equalityI) (simp_all add: xor.assoc xor.left_commute xor.commute)

lemma map2_xor_left:
  "length a = length r \<Longrightarrow> length b = length r \<Longrightarrow>
   map2 (XOR) (map2 (XOR) a r) b = map2 (XOR) (map2 (XOR) a (b::bytes)) r"
  by (rule nth_equalityI) (simp_all add: xor.assoc xor.left_commute xor.commute)

lemma map2_xor_right:
  "length a = length r \<Longrightarrow> length b = length r \<Longrightarrow>
   map2 (XOR) a (map2 (XOR) b r) = map2 (XOR) (map2 (XOR) a (b::bytes)) r"
  by (rule nth_equalityI) (simp_all add: xor.assoc xor.left_commute xor.commute)

lemma testDouble_1:
  "dbl_bytes [0x0e, 0x04, 0xdf, 0xaf, 0xc1, 0xef, 0xbf, 0x04,
              0x01, 0x40, 0x58, 0x28, 0x59, 0xbf, 0x07, 0x3a]
   = Inr [0x1c, 0x09, 0xbf, 0x5f, 0x83, 0xdf, 0x7e, 0x08,
          0x02, 0x80, 0xb0, 0x50, 0xb3, 0x7e, 0x0e, 0x74]"
  by (simp add: dbl_bytes_def ShiftLeft_def Msb_def Xor_def rb_def)

lemma testDouble_2:
  "dbl_bytes [0xed, 0xf0, 0x9d, 0xe8, 0x76, 0xc6, 0x42, 0xee,
              0x4d, 0x78, 0xbc, 0xe4, 0xce, 0xed, 0xfc, 0x4f]
   = Inr [0xdb, 0xe1, 0x3b, 0xd0, 0xed, 0x8c, 0x85, 0xdc,
          0x9a, 0xf1, 0x79, 0xc9, 0x9d, 0xdb, 0xf8, 0x19]"
  by (simp add: dbl_bytes_def ShiftLeft_def Msb_def Xor_def rb_def)

section \<open>The CMAC context: invariant and totality\<close>

text \<open>
  Under the invariant no call of the package panics: \<open>NewCmac\<close> establishes it for a
  block function and a key of 16, 24 or 32 bytes, \<open>Write\<close> keeps it and leaves fewer
  than two blocks in the accumulator, and \<open>Sum\<close> returns 16 bytes.
\<close>

declare blockSize_def [simp]

lemma bindE_Inr [simp]: "bindE (Inr x) f = f x"
  by (simp add: bindE_def)

lemma bindE_Inl [simp]: "bindE (Inl e) f = Inl e"
  by (simp add: bindE_def)

lemma block_cipherD: "block_cipher blk \<Longrightarrow> length b = 16 \<Longrightarrow> length (blk b) = 16"
  by (simp add: block_cipher_def)

lemma Encrypt_block:
  "length s = 16 \<Longrightarrow> Encrypt blk s s = Inr (blk s)"
  by (simp add: Encrypt_def)

lemma Encrypt_zero:
  "Encrypt blk (replicate 16 0) zero = Inr (blk zero)"
  by (simp add: Encrypt_def zero_def)

lemma Padding_length: "length d < 16 \<Longrightarrow> length (Padding d) = 16"
  by (auto simp: Padding_def Let_def)

lemma writeFullBlock_block:
  "length (state c) = 16 \<Longrightarrow> length blk = 16 \<Longrightarrow>
   writeFullBlock c blk = Inr (c\<lparr>state := aesEncryptor c (map2 (XOR) (state c) blk)\<rparr>)"
  by (simp add: writeFullBlock_def Xor_eq Encrypt_block)

lemma Write_loop_ok:
  assumes "block_cipher (aesEncryptor c)" and "length (state c) = 16"
    and "n * 16 \<le> length (accumulator c)"
  shows "\<exists>c'. Write_loop n c = Inr c' \<and>
           accumulator c' = drop (n * 16) (accumulator c) \<and>
           length (state c') = 16 \<and> aesEncryptor c' = aesEncryptor c \<and>
           k1 c' = k1 c \<and> k2 c' = k2 c \<and> finished c' = finished c \<and>
           hadData c' = hadData c \<and> key c' = key c"
  using assms
proof (induction n arbitrary: c)
  case 0
  then show ?case by simp
next
  case (Suc n)
  let ?blk = "take 16 (accumulator c)"
  let ?c1 = "c\<lparr>state := aesEncryptor c (map2 (XOR) (state c) ?blk),
               accumulator := drop 16 (accumulator c)\<rparr>"
  have len: "16 \<le> length (accumulator c)" using Suc.prems(3) by simp
  then have lb: "length ?blk = 16" by simp
  have w: "writeFullBlock c ?blk = Inr (c\<lparr>state := aesEncryptor c (map2 (XOR) (state c) ?blk)\<rparr>)"
    using Suc.prems(2) lb by (rule writeFullBlock_block)
  have step: "Write_loop (Suc n) c = Write_loop n ?c1"
    using len by (simp add: w)
  have p1: "block_cipher (aesEncryptor ?c1)" using Suc.prems(1) by simp
  have p2: "length (state ?c1) = 16"
    using Suc.prems(1,2) lb by (simp add: block_cipherD)
  have p3: "n * 16 \<le> length (accumulator ?c1)" using Suc.prems(3) by simp
  from Suc.IH [OF p1 p2 p3] obtain c' where
    "Write_loop n ?c1 = Inr c'" "accumulator c' = drop (n * 16) (accumulator ?c1)"
    "length (state c') = 16" "aesEncryptor c' = aesEncryptor ?c1"
    "k1 c' = k1 ?c1" "k2 c' = k2 ?c1" "finished c' = finished ?c1"
    "hadData c' = hadData ?c1" "key c' = key ?c1" by blast
  then show ?case unfolding step by (simp add: add.commute)
qed

lemma drain_bound:
  fixes L :: nat
  assumes "\<not> L div 16 \<le> 1"
  shows "L - (L div 16 - 1) * 16 < 32"
proof -
  obtain q where q: "L div 16 = Suc q" using assms by (cases "L div 16") auto
  have "L = Suc q * 16 + L mod 16" using q by (metis div_mult_mod_eq)
  then have "L - q * 16 = 16 + L mod 16" by simp
  moreover have "L mod 16 < 16" by simp
  ultimately show ?thesis unfolding q by simp
qed

lemma Write_ok:
  assumes "cmac_inv c" and "\<not> finished c"
  shows "\<exists>c'. Write c p = Inr (c', length p) \<and> cmac_inv c' \<and> \<not> finished c' \<and>
           aesEncryptor c' = aesEncryptor c \<and> k1 c' = k1 c \<and> k2 c' = k2 c \<and>
           (hadData c' \<longleftrightarrow> hadData c \<or> p \<noteq> [])"
proof (cases "p = []")
  case True
  then show ?thesis using assms by (simp add: Write_def)
next
  case False
  let ?c1 = "c\<lparr>hadData := True, accumulator := accumulator c @ p\<rparr>"
  let ?n = "length (accumulator ?c1) div 16"
  show ?thesis
  proof (cases "?n \<le> 1")
    case True
    then have "length (accumulator c @ p) < 32"
      by simp 
    then have "cmac_inv ?c1" using assms(1) by (simp add: cmac_inv_def)
    moreover have "Write c p = Inr (?c1, length p)"
      using assms(2) False True by (simp add: Write_def Let_def)
    ultimately show ?thesis using assms(2) False by simp
  next
    case n: False
    have p1: "block_cipher (aesEncryptor ?c1)" using assms(1) by (simp add: cmac_inv_def)
    have p2: "length (state ?c1) = 16" using assms(1) by (simp add: cmac_inv_def)
    have p3: "(?n - 1) * 16 \<le> length (accumulator ?c1)"
      by simp
    from Write_loop_ok [OF p1 p2 p3] obtain c' where c':
      "Write_loop (?n - 1) ?c1 = Inr c'"
      "accumulator c' = drop ((?n - 1) * 16) (accumulator ?c1)"
      "length (state c') = 16" "aesEncryptor c' = aesEncryptor ?c1"
      "k1 c' = k1 ?c1" "k2 c' = k2 ?c1" "finished c' = finished ?c1"
      "hadData c' = hadData ?c1" "key c' = key ?c1" by blast
    have "length (accumulator c') = length (accumulator ?c1) - (?n - 1) * 16"
      by (simp only: c'(2) length_drop)
    then have "length (accumulator c') < 32"
      using n drain_bound [of "length (accumulator ?c1)"] by (simp only: blockSize_def)
    then have "cmac_inv c'" using assms(1) c'(3-6) by (simp add: cmac_inv_def)
    moreover have "Write c p = Inr (c', length p)"
      using assms(2) False n c'(1) by (simp add: Write_def Let_def)
    ultimately show ?thesis using assms(2) False c'(4-8) by simp
  qed
qed

lemma Sum_body_noData:
  assumes "cmac_inv c" and "\<not> hadData c"
  shows "Sum_body c b =
     Inr (c\<lparr>accumulator := map2 (XOR) (Padding []) (k2 c), finished := True\<rparr>,
          b @ aesEncryptor c (map2 (XOR) (map2 (XOR) (Padding []) (k2 c)) (state c)))"
  using assms
  by (simp add: Sum_body_def cmac_inv_def Xor_eq Padding_length Encrypt_block)

lemma Sum_body_fullBlock:
  assumes "cmac_inv c" and "hadData c" and "length (accumulator c) = 16"
  shows "Sum_body c b =
     Inr (c\<lparr>accumulator := map2 (XOR) (accumulator c) (k1 c), finished := True\<rparr>,
          b @ aesEncryptor c (map2 (XOR) (map2 (XOR) (accumulator c) (k1 c)) (state c)))"
  using assms
  by (simp add: Sum_body_def cmac_inv_def Xor_eq Encrypt_block)

lemma Sum_body_partial:
  assumes "cmac_inv c" and "hadData c" and "length (accumulator c) < 16"
  shows "Sum_body c b =
     Inr (c\<lparr>accumulator := map2 (XOR) (Padding (accumulator c)) (k2 c), finished := True\<rparr>,
          b @ aesEncryptor c (map2 (XOR) (map2 (XOR) (Padding (accumulator c)) (k2 c)) (state c)))"
  using assms
  by (simp add: Sum_body_def cmac_inv_def Xor_eq Padding_length Encrypt_block)

lemma Sum_body_long:
  assumes "cmac_inv c" and "hadData c" and "16 < length (accumulator c)"
  shows "Sum_body c b =
     (let chained = aesEncryptor c (map2 (XOR) (state c) (take 16 (accumulator c)));
          lastBlock = map2 (XOR) (Padding (drop 16 (accumulator c))) (k2 c)
      in Inr (c\<lparr>state := chained, accumulator := lastBlock, finished := True\<rparr>,
              b @ aesEncryptor c (map2 (XOR) lastBlock chained)))"
proof -
  let ?blk = "take 16 (accumulator c)"
  have lb: "length ?blk = 16" using assms(3) by simp
  have ls: "length (state c) = 16" using assms(1) by (simp add: cmac_inv_def)
  have w: "writeFullBlock c ?blk = Inr (c\<lparr>state := aesEncryptor c (map2 (XOR) (state c) ?blk)\<rparr>)"
    using ls lb by (rule writeFullBlock_block)
  have lc: "length (aesEncryptor c (map2 (XOR) (state c) ?blk)) = 16"
    using assms(1) ls lb by (simp add: cmac_inv_def block_cipherD)
  have lp: "length (Padding (drop 16 (accumulator c))) = 16"
    using assms(1,3) by (intro Padding_length) (auto simp: cmac_inv_def)
  show ?thesis
    using assms lc lp
    by (simp add: Sum_body_def w cmac_inv_def Xor_eq Encrypt_block Let_def)
qed


lemma Sum_ok:
  assumes "cmac_inv c"
  shows "\<exists>y. Sum c b = Inr (b @ y) \<and> length y = 16"
proof -
  have bc: "block_cipher (aesEncryptor c)" and ls: "length (state c) = 16"
    and l1: "length (k1 c) = 16" and l2: "length (k2 c) = 16"
    and la: "length (accumulator c) < 32"
    using assms by (simp_all add: cmac_inv_def)
  consider (n) "\<not> hadData c" | (f) "hadData c" "length (accumulator c) = 16"
    | (p) "hadData c" "length (accumulator c) < 16"
    | (l) "hadData c" "16 < length (accumulator c)"
    by fastforce
  then show ?thesis
  proof cases
    case n
    show ?thesis
      unfolding Sum_def Sum_body_noData [OF assms n]
      using bc ls l2 by (simp add: block_cipherD Padding_length)
  next
    case f
    show ?thesis
      unfolding Sum_def Sum_body_fullBlock [OF assms f]
      using bc ls l1 f(2) by (simp add: block_cipherD)
  next
    case p
    show ?thesis
      unfolding Sum_def Sum_body_partial [OF assms p]
      using bc ls l2 p(2) by (simp add: block_cipherD Padding_length)
  next
    case l
    have lb: "length (take 16 (accumulator c)) = 16" using l(2) by simp
    have lc: "length (aesEncryptor c (map2 (XOR) (state c) (take 16 (accumulator c))))
               = 16"
      using bc ls lb by (simp add: block_cipherD)
    have lp: "length (Padding (drop 16 (accumulator c))) = 16"
      using la l(2) by (intro Padding_length) auto
    show ?thesis
      unfolding Sum_def Sum_body_long [OF assms l]
      using bc l2 lc lp by (simp add: block_cipherD Let_def)
  qed
qed

lemma Sum_body_finished:
  "Sum_body c b = Inr (c_local, out) \<Longrightarrow> finished c_local"
  by (auto simp: Sum_body_def bindE_def split: sum.splits if_splits)

lemma length_zero: "length zero = 16"
  by (simp add: zero_def)

text \<open>\<open>one\<close> is the integer 1 written as 16 big-endian bytes.\<close>

lemma one_big_endian: "length one = 16 \<and> foldl (\<lambda>n b. n * 256 + unat b) 0 one = 1"
  by (simp add: one_def)

lemma subkey_step:
  assumes "length l = 16"
  shows "\<exists>r. (case l of [] \<Rightarrow> Inl (Panic ''index out of range'')
               | l0 # _ \<Rightarrow> if l0 AND Msb = Msb then Xor (ShiftLeft l) rb else Inr (ShiftLeft l))
              = Inr r \<and> length r = 16 \<and> dbl_bytes l = Inr r"
  using assms
  by (cases l) (auto simp: Xor_eq length_ShiftLeft length_rb dbl_bytes_def Let_def)

lemma generateSubKey_ok:
  assumes "block_cipher (aesEncryptor c)"
  shows "\<exists>s1 s2. generateSubKey c = Inr (s1, s2) \<and> length s1 = 16 \<and> length s2 = 16
           \<and> dbl_bytes (aesEncryptor c zero) = Inr s1 \<and> dbl_bytes s1 = Inr s2"
proof -
  have l: "length (aesEncryptor c zero) = 16"
    using assms by (simp add: block_cipherD length_zero)
  from subkey_step [OF l] obtain s1 where s1:
    "(case aesEncryptor c zero of [] \<Rightarrow> Inl (Panic ''index out of range'')
      | l0 # _ \<Rightarrow> if l0 AND Msb = Msb then Xor (ShiftLeft (aesEncryptor c zero)) rb
                  else Inr (ShiftLeft (aesEncryptor c zero))) = Inr s1"
    "length s1 = 16" "dbl_bytes (aesEncryptor c zero) = Inr s1" by blast
  from subkey_step [OF s1(2)] obtain s2 where s2:
    "(case s1 of [] \<Rightarrow> Inl (Panic ''index out of range'')
      | l0 # _ \<Rightarrow> if l0 AND Msb = Msb then Xor (ShiftLeft s1) rb
                  else Inr (ShiftLeft s1)) = Inr s2"
    "length s2 = 16" "dbl_bytes s1 = Inr s2" by blast
  show ?thesis
    using s1 s2 by (simp add: generateSubKey_def Encrypt_zero)
qed

lemma init_ok:
  assumes "block_cipher (aesEncryptor c)"
  shows "\<exists>c'. init c = Inr c' \<and> cmac_inv c' \<and> \<not> finished c' \<and> \<not> hadData c' \<and>
           accumulator c' = [] \<and> state c' = replicate 16 0 \<and>
           aesEncryptor c' = aesEncryptor c \<and> key c' = key c \<and>
           dbl_bytes (aesEncryptor c zero) = Inr (k1 c') \<and> dbl_bytes (k1 c') = Inr (k2 c')"
proof -
  from generateSubKey_ok [OF assms] obtain s1 s2 where
    "generateSubKey c = Inr (s1, s2)" "length s1 = 16" "length s2 = 16"
    "dbl_bytes (aesEncryptor c zero) = Inr s1" "dbl_bytes s1 = Inr s2" by blast
  then show ?thesis using assms by (simp add: init_def cmac_inv_def)
qed

lemma NewCmac_ok:
  assumes "block_cipher (E ky)" and "length ky = 16 \<or> length ky = 24 \<or> length ky = 32"
  shows "\<exists>c. NewCmac E ky = Inr c \<and> cmac_inv c \<and> \<not> finished c \<and> \<not> hadData c \<and>
           accumulator c = [] \<and> state c = replicate 16 0 \<and> aesEncryptor c = E ky \<and>
           dbl_bytes (E ky zero) = Inr (k1 c) \<and> dbl_bytes (k1 c) = Inr (k2 c)"
proof -
  let ?c0 = "\<lparr>aesEncryptor = E ky, state = [], key = ky, accumulator = [],
              finished = False, hadData = False, k1 = [], k2 = []\<rparr>"
  have "block_cipher (aesEncryptor ?c0)" using assms(1) by simp
  from init_ok [OF this] obtain c' where "init ?c0 = Inr c'" "cmac_inv c'" "\<not> finished c'"
    "\<not> hadData c'" "accumulator c' = []" "state c' = replicate 16 0"
    "aesEncryptor c' = aesEncryptor ?c0"
    "dbl_bytes (aesEncryptor ?c0 zero) = Inr (k1 c')" "dbl_bytes (k1 c') = Inr (k2 c')"
    by blast
  then show ?thesis using assms(2) by (auto simp: NewCmac_def aes_NewCipher_def)
qed

lemma NewCmac_bad_key:
  "\<not> (length ky = 16 \<or> length ky = 24 \<or> length ky = 32) \<Longrightarrow>
   NewCmac E ky = Inl errUnsupportedKeySize"
  by (simp add: NewCmac_def)

lemma Reset_ok:
  assumes "block_cipher (aesEncryptor c)"
  shows "\<exists>c'. Reset c = Inr c' \<and> cmac_inv c' \<and> \<not> finished c' \<and> \<not> hadData c' \<and>
           accumulator c' = [] \<and> state c' = replicate 16 0"
  using init_ok [OF assms] by (auto simp: Reset_def)

text \<open>Every context a caller can hold satisfies the invariant and is not finished.\<close>

lemma reachable_inv:
  assumes "\<And>k. block_cipher (E k)" and "reachable E c"
  shows "cmac_inv c \<and> \<not> finished c"
  using assms(2)
proof (induction rule: reachable.induct)
  case (reachable_new ky c)
  then have "length ky = 16 \<or> length ky = 24 \<or> length ky = 32"
    by (auto simp: NewCmac_def split: if_splits)
  from NewCmac_ok [of E ky, OF assms(1) this] reachable_new show ?case by auto
next
  case (reachable_write c p c' n)
  then have "cmac_inv c" "\<not> finished c" by simp_all
  from Write_ok [OF this, of p] reachable_write.hyps(2) show ?case by auto
next
  case (reachable_reset c c')
  then have "block_cipher (aesEncryptor c)" by (simp add: cmac_inv_def)
  from Reset_ok [OF this] reachable_reset.hyps(2) show ?case by auto
qed

lemma cmac_Sum_ok:
  assumes "block_cipher (E ky)" and "length ky = 16 \<or> length ky = 24 \<or> length ky = 32"
  shows "\<exists>t. cmac_Sum E ky data = Inr t \<and> length t = 16"
proof -
  from NewCmac_ok [of E ky, OF assms] obtain c where c: "NewCmac E ky = Inr c" "cmac_inv c" "\<not> finished c"
    by blast
  from Write_ok [OF c(2,3)] obtain c' where c': "Write c data = Inr (c', length data)" "cmac_inv c'"
    by blast
  from Sum_ok [OF c'(2)] obtain y where "Sum c' [] = Inr ([] @ y)" "length y = 16"
    by blast
  then show ?thesis by (simp add: cmac_Sum_def c(1) c'(1))
qed

section \<open>Counter mode\<close>

text \<open>
  The key stream covers the input, so the transform keeps the length, and applying it
  twice under the same block function and IV gives the input back.
\<close>

lemma length_ctr_incr_loop: "length (fst (ctr_incr_loop c)) = length c"
  by (induction c) (auto split: prod.splits)

lemma length_ctr_incr: "length (ctr_incr c) = length c"
  by (simp add: ctr_incr_def length_ctr_incr_loop)

lemma length_keyStream:
  "block_cipher blk \<Longrightarrow> length ctr = 16 \<Longrightarrow> length (keyStream blk ctr n) = n * 16"
  by (induction n arbitrary: ctr) (simp_all add: block_cipherD length_ctr_incr)

lemma stream_covers: "(n::nat) \<le> (n + 16 - 1) div 16 * 16"
proof -
  have "n + 15 = (n + 15) div 16 * 16 + (n + 15) mod 16" by simp
  moreover have "(n + 15) mod 16 < 16" by simp
  ultimately have "n + 15 < (n + 15) div 16 * 16 + 16" by linarith
  then show ?thesis by simp
qed

lemma CTR_XORKeyStream_ok:
  assumes "block_cipher blk" and "length iv = 16"
  shows "\<exists>r. CTR_XORKeyStream blk iv src = Inr r \<and> length r = length src"
  using assms stream_covers [of "length src"]
  by (simp add: CTR_XORKeyStream_def length_keyStream)

lemma map2_xor_twice:
  "length (ks::bytes) = length src \<Longrightarrow> map2 (XOR) (map2 (XOR) src ks) ks = src"
  by (rule nth_equalityI) (simp_all add: xor.assoc)

lemma CTR_XORKeyStream_twice:
  assumes "block_cipher blk" and "length iv = 16" and "CTR_XORKeyStream blk iv src = Inr r"
  shows "CTR_XORKeyStream blk iv r = Inr src"
proof -
  let ?ks = "take (length src) (keyStream blk iv ((length src + blockSize - 1) div blockSize))"
  have lk: "length ?ks = length src"
    using assms(1,2) stream_covers [of "length src"] by (simp add: length_keyStream)
  have r: "r = map2 (XOR) src ?ks" using assms(2,3) by (simp add: CTR_XORKeyStream_def)
  then have lr: "length r = length src" using lk by simp
  have "CTR_XORKeyStream blk iv r = Inr (map2 (XOR) r ?ks)"
    using assms(2) by (simp add: CTR_XORKeyStream_def lr)
  then show ?thesis unfolding r using lk by (simp only: map2_xor_twice)
qed

section \<open>S2V, Seal and Open\<close>

text \<open>
  For a block function and a valid key \<open>s2v\<close> returns 16 bytes, equal to the specified
  fold; \<open>SealWithMultipleAAD\<close> returns \<open>dst\<close>, the tag and the stream bytes;
  \<open>OpenWithMultipleAAD\<close> returns an error or \<open>dst\<close> and the plaintext.
\<close>

lemma CMAC_eq:
  assumes "block_cipher (E ky)" and "length ky = 16 \<or> length ky = 24 \<or> length ky = 32"
  shows "cmac_Sum E ky m = Inr (CMAC E ky m)" and "length (CMAC E ky m) = 16"
  using cmac_Sum_ok [of E ky m, OF assms] by (auto simp: CMAC_def)

lemma double_eq:
  assumes "length d = 16"
  shows "dbl_bytes d = Inr (double d)" and "length (double d) = 16"
  using assms by (auto simp: double_def dbl_bytes_block length_ShiftLeft length_rb)

lemma s2v_loop_foldl:
  assumes "block_cipher (E ky)" and "length ky = 16 \<or> length ky = 24 \<or> length ky = 32"
    and "length d = 16"
  shows "s2v_loop E ky d aad =
           Inr (foldl (\<lambda>D element. map2 (XOR) (double D) (CMAC E ky element)) d aad)
         \<and> length (foldl (\<lambda>D element. map2 (XOR) (double D) (CMAC E ky element)) d aad) = 16"
proof -
  note cm = CMAC_eq [of E ky, OF assms(1,2)]
  show ?thesis using assms(3)
  proof (induction aad arbitrary: d)
    case Nil
    then show ?case by simp
  next
    case (Cons x xs)
    let ?d' = "map2 (XOR) (double d) (CMAC E ky x)"
    have l: "length ?d' = 16"
      using Cons.prems by (simp add: double_eq(2) cm(2))
    have "s2v_loop E ky d (x # xs) = s2v_loop E ky ?d' xs"
      using Cons.prems by (simp add: double_eq cm Xor_eq)
    then show ?case using Cons.IH [OF l] by simp
  qed
qed

lemma xorEnd_eq:
  "length b \<le> length a \<Longrightarrow>
   xorEnd a b = Inr (take (length a - length b) a @ map2 (XOR) (drop (length a - length b) a) b)"
  by (simp add: xorEnd_def Let_def)

lemma s2v_eq_S2V_spec:
  assumes "block_cipher (E ky)" and "length ky = 16 \<or> length ky = 24 \<or> length ky = 32"
  shows "s2v E ky aad message = Inr (S2V_spec E ky aad message)"
proof (cases "aad = []")
  note cm = CMAC_eq [of E ky, OF assms]
  case True
  then show ?thesis by (simp add: s2v_def S2V_spec_def cm(1))
next
  note cm = CMAC_eq [of E ky, OF assms]
  case False
  let ?D = "foldl (\<lambda>D element. map2 (XOR) (double D) (CMAC E ky element)) (CMAC E ky zero) aad"
  have loop: "s2v_loop E ky (CMAC E ky zero) aad = Inr ?D" and lD: "length ?D = 16"
    using s2v_loop_foldl [of E ky, OF assms cm(2)] by simp_all
  show ?thesis
  proof (cases "length message \<ge> 16")
    case True
    then show ?thesis
      using False lD
      by (simp add: s2v_def S2V_spec_def cm(1) loop xorEnd_eq Let_def)
  next
    case short: False
    then have "length (Padding message) = 16" by (simp add: Padding_length)
    then show ?thesis
      using False lD short
      by (simp add: s2v_def S2V_spec_def cm(1) loop double_eq Xor_eq Let_def)
  qed
qed

lemma length_S2V_spec:
  assumes "block_cipher (E ky)" and "length ky = 16 \<or> length ky = 24 \<or> length ky = 32"
  shows "length (S2V_spec E ky aad message) = 16"
  by (simp add: S2V_spec_def Let_def CMAC_eq(2) [of E ky, OF assms])

lemma block_cipher_sample: "block_cipher (sample_cipher ky)"
  by (simp add: block_cipher_def sample_cipher_def)

lemma length_tv_key: "length tv_key = 32"
  by (simp add: tv_key_def)

lemma length_siv_mask: "length siv_mask = 16"
  by (simp add: siv_mask_def)

lemma bitAnd_ok:
  "length v = 16 \<Longrightarrow> \<exists>iv. bitAnd v siv_mask = Inr iv \<and> length iv = 16"
  by (simp add: bitAnd_def length_siv_mask)

lemma half_key_valid:
  assumes "length ky = 32 \<or> length ky = 48 \<or> length ky = 64"
  shows "length (take (length ky div 2) ky) = 16 \<or> length (take (length ky div 2) ky) = 24
           \<or> length (take (length ky div 2) ky) = 32"
    and "length (drop (length ky div 2) ky) = 16 \<or> length (drop (length ky div 2) ky) = 24
           \<or> length (drop (length ky div 2) ky) = 32"
  using assms by auto

lemma s2v_ok:
  assumes "block_cipher (E ky)" and "length ky = 16 \<or> length ky = 24 \<or> length ky = 32"
  shows "\<exists>v. s2v E ky aad message = Inr v \<and> length v = 16"
  using s2v_eq_S2V_spec [of E ky, OF assms] length_S2V_spec [of E ky, OF assms] by simp

lemma Seal_format:
  assumes bc: "\<And>k. block_cipher (E k)"
    and kl: "length (siv_key a) = 32 \<or> length (siv_key a) = 48 \<or> length (siv_key a) = 64"
  shows "\<exists>v iv body.
           s2v E (take (length (siv_key a) div 2) (siv_key a)) aad pt = Inr v \<and> length v = 16 \<and>
           bitAnd v siv_mask = Inr iv \<and> length iv = 16 \<and>
           CTR_XORKeyStream (E (drop (length (siv_key a) div 2) (siv_key a))) iv pt = Inr body \<and>
           length body = length pt \<and>
           SealWithMultipleAAD E a dst pt aad = Inr (dst @ v @ body)"
proof -
  let ?mk = "take (length (siv_key a) div 2) (siv_key a)"
  let ?ek = "drop (length (siv_key a) div 2) (siv_key a)"
  note hk = half_key_valid [OF kl]
  from s2v_ok [of E ?mk, OF bc hk(1)] obtain v where
    v: "s2v E ?mk aad pt = Inr v" "length v = 16" by blast
  from bitAnd_ok [OF v(2)] obtain iv where iv: "bitAnd v siv_mask = Inr iv" "length iv = 16"
    by blast
  from CTR_XORKeyStream_ok [OF bc iv(2)] obtain body where
    body: "CTR_XORKeyStream (E ?ek) iv pt = Inr body" "length body = length pt" by blast
  have nc: "aes_NewCipher E ?ek = Inr (E ?ek)"
    using hk(2) by (simp only: aes_NewCipher_def if_True)
  have "SealWithMultipleAAD E a dst pt aad = Inr (dst @ v @ body)"
    by (simp add: SealWithMultipleAAD_def Let_def v(1) iv(1) nc body(1) del: blockSize_def)
  then show ?thesis using v iv body by blast
qed

lemma Open_short:
  "length ct < 17 \<Longrightarrow> OpenWithMultipleAAD E a dst ct aad = Inl errInvalidCiphertextLength"
  by (simp add: OpenWithMultipleAAD_def)

lemma Open_long:
  assumes bc: "\<And>k. block_cipher (E k)"
    and kl: "length (siv_key a) = 32 \<or> length (siv_key a) = 48 \<or> length (siv_key a) = 64"
    and len: "17 \<le> length ct"
  shows "\<exists>iv pt t.
           bitAnd (take 16 ct) siv_mask = Inr iv \<and>
           CTR_XORKeyStream (E (drop (length (siv_key a) div 2) (siv_key a))) iv (drop 16 ct)
             = Inr pt \<and>
           s2v E (take (length (siv_key a) div 2) (siv_key a)) aad pt = Inr t \<and>
           OpenWithMultipleAAD E a dst ct aad =
             (if t = take 16 ct then Inr (dst @ pt) else Inl errIntegrityError)"
proof -
  let ?mk = "take (length (siv_key a) div 2) (siv_key a)"
  let ?ek = "drop (length (siv_key a) div 2) (siv_key a)"
  note hk = half_key_valid [OF kl]
  have lv: "length (take 16 ct) = 16" using len by simp
  from bitAnd_ok [OF lv] obtain iv where
    iv: "bitAnd (take 16 ct) siv_mask = Inr iv" "length iv = 16" by blast
  from CTR_XORKeyStream_ok [OF bc iv(2)] obtain pt where
    pt: "CTR_XORKeyStream (E ?ek) iv (drop 16 ct) = Inr pt" by blast
  from s2v_ok [of E ?mk, OF bc hk(1)] obtain t where
    t: "s2v E ?mk aad pt = Inr t" by blast
  have nc: "aes_NewCipher E ?ek = Inr (E ?ek)"
    using hk(2) by (simp only: aes_NewCipher_def if_True)
  have "OpenWithMultipleAAD E a dst ct aad =
          (if t = take 16 ct then Inr (dst @ pt) else Inl errIntegrityError)"
    using len by (simp add: OpenWithMultipleAAD_def Let_def iv(1) nc pt t)
  then show ?thesis using iv(1) pt t by blast
qed

lemma Open_Seal:
  assumes bc: "\<And>k. block_cipher (E k)"
    and kl: "length (siv_key a) = 32 \<or> length (siv_key a) = 48 \<or> length (siv_key a) = 64"
    and ne: "plaintext \<noteq> []"
  shows "\<exists>ct. SealWithMultipleAAD E a [] plaintext aad = Inr ct \<and>
              length ct = 16 + length plaintext \<and>
              OpenWithMultipleAAD E a dst ct aad = Inr (dst @ plaintext)"
proof -
  let ?mk = "take (length (siv_key a) div 2) (siv_key a)"
  let ?ek = "drop (length (siv_key a) div 2) (siv_key a)"
  from Seal_format [of E a aad plaintext "[]", OF bc kl] obtain v iv body where s:
    "s2v E ?mk aad plaintext = Inr v" "length v = 16"
    "bitAnd v siv_mask = Inr iv" "length iv = 16"
    "CTR_XORKeyStream (E ?ek) iv plaintext = Inr body" "length body = length plaintext"
    "SealWithMultipleAAD E a [] plaintext aad = Inr ([] @ v @ body)" by blast
  let ?ct = "v @ body"
  have len: "17 \<le> length ?ct" using s(2,6) ne by (cases plaintext) auto
  have tk: "take 16 ?ct = v" and dr: "drop 16 ?ct = body" using s(2) by simp_all
  from Open_long [of E a ?ct aad dst, OF bc kl len] obtain iv' pt t where o:
    "bitAnd (take 16 ?ct) siv_mask = Inr iv'"
    "CTR_XORKeyStream (E ?ek) iv' (drop 16 ?ct) = Inr pt"
    "s2v E ?mk aad pt = Inr t"
    "OpenWithMultipleAAD E a dst ?ct aad =
       (if t = take 16 ?ct then Inr (dst @ pt) else Inl errIntegrityError)" by blast
  have "iv' = iv" using o(1) s(3) unfolding tk by simp
  then have "pt = plaintext"
    using o(2) CTR_XORKeyStream_twice [OF bc s(4,5)] unfolding dr by simp
  then have "t = v" using o(3) s(1) by simp
  then have "OpenWithMultipleAAD E a dst ?ct aad = Inr (dst @ plaintext)"
    using o(4) \<open>pt = plaintext\<close> unfolding tk by simp
  then show ?thesis using s(2,6,7) by simp
qed

lemma Open_Seal_empty:
  assumes bc: "\<And>k. block_cipher (E k)"
    and kl: "length (siv_key a) = 32 \<or> length (siv_key a) = 48 \<or> length (siv_key a) = 64"
  shows "\<exists>ct. SealWithMultipleAAD E a [] [] aad = Inr ct \<and>
              OpenWithMultipleAAD E a dst ct aad = Inl errInvalidCiphertextLength"
proof -
  from Seal_format [of E a aad "[]" "[]", OF bc kl] obtain v body where
    "length v = 16" "length body = length ([]::bytes)"
    "SealWithMultipleAAD E a [] [] aad = Inr ([] @ v @ body)" by blast
  then show ?thesis by (simp add: Open_short)
qed

subsection \<open>The mask of the IV\<close>

lemma block_16:
  "length (v::bytes) = 16 \<Longrightarrow>
   \<exists>x0 x1 x2 x3 x4 x5 x6 x7 x8 x9 x10 x11 x12 x13 x14 x15.
     v = [x0, x1, x2, x3, x4, x5, x6, x7, x8, x9, x10, x11, x12, x13, x14, x15]"
  by (auto simp: numeral_eq_Suc length_Suc_conv)

lemma and_7f_bit: "bit ((x::byte) AND 0x7f) j \<longleftrightarrow> bit x j \<and> j \<noteq> 7"
proof -
  have e: "(0x7f::byte) = mask 7" by (simp add: mask_eq_exp_minus_1)
  show ?thesis unfolding e bit_and_iff bit_mask_iff
    by (auto dest: bit_imp_le_length)
qed

lemma and_ff: "(x::byte) AND 0xff = x"
proof -
  have e: "(0xff::byte) = - 1" by simp
  show ?thesis unfolding e by simp
qed

lemma bitAnd_mask_update:
  assumes "length v = 16"
  shows "bitAnd v siv_mask = Inr (v[8 := v ! 8 AND 0x7f, 12 := v ! 12 AND 0x7f])"
proof -
  obtain x0 x1 x2 x3 x4 x5 x6 x7 x8 x9 x10 x11 x12 x13 x14 x15 where
    v: "v = [x0, x1, x2, x3, x4, x5, x6, x7, x8, x9, x10, x11, x12, x13, x14, x15]"
    using block_16 [OF assms] by blast
  show ?thesis unfolding v bitAnd_def siv_mask_def
    by (simp add: and_ff)
qed

section \<open>C9: doubling is linear over XOR\<close>

text \<open>
  Claim C9.  For every pair of 16-byte blocks \<open>a\<close> and \<open>b\<close>, \<open>dbl\<close> returns on \<open>a\<close>, on
  \<open>b\<close> and on \<open>a XOR b\<close>, and \<open>dbl(a) XOR dbl(b)\<close> equals \<open>dbl(a XOR b)\<close>.
\<close>

theorem dbl_linear:
  assumes "length a = 16" and "length b = 16"
  shows "\<exists>da db ab. dbl_bytes a = Inr da \<and> dbl_bytes b = Inr db \<and> Xor a b = Inr ab
           \<and> Xor da db = dbl_bytes ab"
proof -
  obtain x xs where a: "a = x # xs" using assms(1) by (cases a) auto
  obtain y ys where b: "b = y # ys" using assms(2) by (cases b) auto
  let ?ab = "map2 (XOR) a b"
  have lab: "length ?ab = 16" using assms by simp
  have sh: "ShiftLeft ?ab = map2 (XOR) (ShiftLeft a) (ShiftLeft b)"
    using assms by (simp add: ShiftLeft_xor)
  have hd: "bit (hd ?ab) 7 = (bit (hd a) 7 \<noteq> bit (hd b) 7)"
    by (simp add: a b bit_xor_iff)
  have ls: "length (ShiftLeft a) = length rb" "length (ShiftLeft b) = length rb"
    using assms by (simp_all add: length_ShiftLeft length_rb)
  have lr: "length (ShiftLeft ?ab) = length rb"
    using lab by (simp add: length_ShiftLeft length_rb)
  have "Xor (if bit (hd a) 7 then map2 (XOR) (ShiftLeft a) rb else ShiftLeft a)
            (if bit (hd b) 7 then map2 (XOR) (ShiftLeft b) rb else ShiftLeft b)
        = dbl_bytes ?ab"
  proof (cases "bit (hd a) 7"; cases "bit (hd b) 7")
    assume "bit (hd a) 7" "bit (hd b) 7"
    then show ?thesis
      unfolding dbl_bytes_block [OF lab] hd using ls
      by (simp add: Xor_eq sh map2_xor_cancel)
  next
    assume "bit (hd a) 7" "\<not> bit (hd b) 7"
    then show ?thesis
      unfolding dbl_bytes_block [OF lab] hd using ls
      by (simp add: Xor_eq sh map2_xor_left)
  next
    assume "\<not> bit (hd a) 7" "bit (hd b) 7"
    then show ?thesis
      unfolding dbl_bytes_block [OF lab] hd using ls
      by (simp add: Xor_eq sh map2_xor_right)
  next
    assume "\<not> bit (hd a) 7" "\<not> bit (hd b) 7"
    then show ?thesis
      unfolding dbl_bytes_block [OF lab] hd using ls
      by (simp add: Xor_eq sh)
  qed
  then show ?thesis
    using assms by (simp add: dbl_bytes_block Xor_eq)
qed

theorem dbl_linear_witness:
  "\<exists>da db ab.
     dbl_bytes [0x0e, 0x04, 0xdf, 0xaf, 0xc1, 0xef, 0xbf, 0x04,
                0x01, 0x40, 0x58, 0x28, 0x59, 0xbf, 0x07, 0x3a] = Inr da
   \<and> dbl_bytes [0xed, 0xf0, 0x9d, 0xe8, 0x76, 0xc6, 0x42, 0xee,
                0x4d, 0x78, 0xbc, 0xe4, 0xce, 0xed, 0xfc, 0x4f] = Inr db
   \<and> Xor [0x0e, 0x04, 0xdf, 0xaf, 0xc1, 0xef, 0xbf, 0x04,
          0x01, 0x40, 0x58, 0x28, 0x59, 0xbf, 0x07, 0x3a]
         [0xed, 0xf0, 0x9d, 0xe8, 0x76, 0xc6, 0x42, 0xee,
          0x4d, 0x78, 0xbc, 0xe4, 0xce, 0xed, 0xfc, 0x4f] = Inr ab
   \<and> Xor da db = dbl_bytes ab"
  using dbl_linear [of "[0x0e, 0x04, 0xdf, 0xaf, 0xc1, 0xef, 0xbf, 0x04,
                         0x01, 0x40, 0x58, 0x28, 0x59, 0xbf, 0x07, 0x3a]"
                       "[0xed, 0xf0, 0x9d, 0xe8, 0x76, 0xc6, 0x42, 0xee,
                         0x4d, 0x78, 0xbc, 0xe4, 0xce, 0xed, 0xfc, 0x4f]"]
  by simp

section \<open>C2: the IV mask\<close>

lemma testBitAnd:
  "bitAnd [0x85, 0x63, 0x2d, 0x07, 0xc6, 0xe8, 0xf3, 0x7f,
           0x95, 0x0a, 0xcd, 0x32, 0x0a, 0x2e, 0xcc, 0x93] siv_mask
   = Inr [0x85, 0x63, 0x2d, 0x07, 0xc6, 0xe8, 0xf3, 0x7f,
          0x15, 0x0a, 0xcd, 0x32, 0x0a, 0x2e, 0xcc, 0x93]"
  by (simp add: bitAnd_def siv_mask_def)

text \<open>
  Claim C2, as stated, fails.  On the input of the test \<open>testBitAnd\<close> the most
  significant bit of the tag is set and stays set: \<open>bitAnd(V, mask)\<close> is not \<open>V\<close> with
  its two most significant bits cleared.
\<close>

theorem bitAnd_mask_counterexample:
  "bitAnd [0x85, 0x63, 0x2d, 0x07, 0xc6, 0xe8, 0xf3, 0x7f,
           0x95, 0x0a, 0xcd, 0x32, 0x0a, 0x2e, 0xcc, 0x93] siv_mask
   \<noteq> Inr (clear_two_msb [0x85, 0x63, 0x2d, 0x07, 0xc6, 0xe8, 0xf3, 0x7f,
                           0x95, 0x0a, 0xcd, 0x32, 0x0a, 0x2e, 0xcc, 0x93])"
  by (simp add: bitAnd_def siv_mask_def clear_two_msb_def)

text \<open>
  Claim C2, amended.  For every 16-byte \<open>V\<close>, \<open>bitAnd(V, mask)\<close> returns a 16-byte block
  that is \<open>V\<close> with the most significant bit of byte 8 and the most significant bit of
  byte 12 cleared (bits 63 and 31 of the tag read as a big-endian integer), and every
  other bit unchanged.
\<close>

theorem bitAnd_mask_clears_lane_bits:
  assumes "length v = 16"
  shows "\<exists>iv. bitAnd v siv_mask = Inr iv \<and> length iv = 16 \<and>
           iv = v[8 := v ! 8 AND 0x7f, 12 := v ! 12 AND 0x7f] \<and>
           (\<forall>i j. i < 16 \<longrightarrow>
              (bit (iv ! i) j \<longleftrightarrow> bit (v ! i) j \<and> \<not> (j = 7 \<and> (i = 8 \<or> i = 12))))"
proof -
  let ?iv = "v[8 := v ! 8 AND 0x7f, 12 := v ! 12 AND 0x7f]"
  have "bit (?iv ! i) j \<longleftrightarrow> bit (v ! i) j \<and> \<not> (j = 7 \<and> (i = 8 \<or> i = 12))"
    if "i < 16" for i j
    using that assms by (auto simp: nth_list_update and_7f_bit)
  then show ?thesis
    using bitAnd_mask_update [OF assms] assms by simp
qed

theorem bitAnd_mask_clears_lane_bits_witness:
  "bitAnd [0x85, 0x63, 0x2d, 0x07, 0xc6, 0xe8, 0xf3, 0x7f,
           0x95, 0x0a, 0xcd, 0x32, 0x0a, 0x2e, 0xcc, 0x93] siv_mask
   = Inr [0x85, 0x63, 0x2d, 0x07, 0xc6, 0xe8, 0xf3, 0x7f,
          0x15, 0x0a, 0xcd, 0x32, 0x0a, 0x2e, 0xcc, 0x93]"
  using bitAnd_mask_clears_lane_bits
          [of "[0x85, 0x63, 0x2d, 0x07, 0xc6, 0xe8, 0xf3, 0x7f,
                0x95, 0x0a, 0xcd, 0x32, 0x0a, 0x2e, 0xcc, 0x93]"]
  by simp

section \<open>C6: the last block of CMAC\<close>

lemma map2_xor_commute: "map2 (XOR) (a::bytes) b = map2 (XOR) b a"
  by (induction a arbitrary: b) (case_tac b; simp add: xor.commute)+

text \<open>
  Claim C6.  Let \<open>c\<close> be a context that satisfies the invariant (every context made by
  \<open>NewCmac\<close> and changed by \<open>Write\<close> and \<open>Reset\<close> does, see \<open>reachable_inv\<close>).  If no
  data was written, the last block is \<open>pad(empty) XOR K2\<close>.  If the retained tail is
  one full block, the last block is \<open>tail XOR K1\<close>.  If the tail is longer than a block,
  its first block is chained (XOR into the chaining value, then encrypt) and the last
  block is \<open>pad(rest) XOR K2\<close>.  \<open>Sum\<close> appends the encryption of
  \<open>chainingValue XOR lastBlock\<close> to its argument.
\<close>

theorem Sum_last_block:
  assumes "cmac_inv c"
  shows "(\<not> hadData c \<longrightarrow>
            Sum c b = Inr (b @ aesEncryptor c
                             (map2 (XOR) (state c) (map2 (XOR) (Padding []) (k2 c))))) \<and>
         (hadData c \<and> length (accumulator c) = 16 \<longrightarrow>
            Sum c b = Inr (b @ aesEncryptor c
                             (map2 (XOR) (state c) (map2 (XOR) (accumulator c) (k1 c))))) \<and>
         (hadData c \<and> 16 < length (accumulator c) \<longrightarrow>
            Sum c b = Inr (b @ aesEncryptor c
                             (map2 (XOR)
                                (aesEncryptor c (map2 (XOR) (state c) (take 16 (accumulator c))))
                                (map2 (XOR) (Padding (drop 16 (accumulator c))) (k2 c)))))"
proof (intro conjI impI)
  assume "\<not> hadData c"
  from Sum_body_noData [OF assms this, of b] show
    "Sum c b = Inr (b @ aesEncryptor c
                      (map2 (XOR) (state c) (map2 (XOR) (Padding []) (k2 c))))"
    by (simp add: Sum_def map2_xor_commute [of "state c"])
next
  assume "hadData c \<and> length (accumulator c) = 16"
  then have h: "hadData c" "length (accumulator c) = 16" by simp_all
  from Sum_body_fullBlock [OF assms h, of b] show
    "Sum c b = Inr (b @ aesEncryptor c
                      (map2 (XOR) (state c) (map2 (XOR) (accumulator c) (k1 c))))"
    by (simp add: Sum_def map2_xor_commute [of "state c"])
next
  assume "hadData c \<and> 16 < length (accumulator c)"
  then have h: "hadData c" "16 < length (accumulator c)" by simp_all
  from Sum_body_long [OF assms h, of b] show
    "Sum c b = Inr (b @ aesEncryptor c
                      (map2 (XOR)
                         (aesEncryptor c (map2 (XOR) (state c) (take 16 (accumulator c))))
                         (map2 (XOR) (Padding (drop 16 (accumulator c))) (k2 c))))"
    by (simp add: Sum_def Let_def
          map2_xor_commute [of "aesEncryptor c (map2 (XOR) (state c) (take 16 (accumulator c)))"])
qed

lemma cmac_inv_sample_context:
  "length acc < 32 \<Longrightarrow> cmac_inv (sample_context acc had)"
  by (simp add: cmac_inv_def sample_context_def block_cipher_sample length_zero
        double_eq(2) block_cipherD [OF block_cipher_sample])

theorem Sum_last_block_witness:
  "Sum (sample_context [] False) []
     = Inr [128, 5, 10, 15, 20, 17, 30, 27, 40, 45, 34, 39, 60, 57, 55, 185] \<and>
   Sum (sample_context (take 16 tv_ad) True) []
     = Inr [16, 18, 20, 22, 24, 26, 28, 30, 0, 2, 4, 6, 8, 10, 12, 136] \<and>
   Sum (sample_context tv_ad True) []
     = Inr [207, 203, 199, 195, 223, 219, 215, 211, 71, 194, 205, 200, 211, 214, 216, 86]"
proof -
  let ?c1 = "sample_context [] False"
  let ?c2 = "sample_context (take 16 tv_ad) True"
  let ?c3 = "sample_context tv_ad True"
  have i1: "cmac_inv ?c1" by (rule cmac_inv_sample_context) simp
  have i2: "cmac_inv ?c2" by (rule cmac_inv_sample_context) simp
  have i3: "cmac_inv ?c3" by (rule cmac_inv_sample_context) (simp add: tv_ad_def)
  have h1: "\<not> hadData ?c1" by (simp add: sample_context_def)
  have h2: "hadData ?c2 \<and> length (accumulator ?c2) = 16"
    by (simp add: sample_context_def tv_ad_def)
  have h3: "hadData ?c3 \<and> 16 < length (accumulator ?c3)"
    by (simp add: sample_context_def tv_ad_def)
  have e1: "aesEncryptor ?c1 (map2 (XOR) (state ?c1) (map2 (XOR) (Padding []) (k2 ?c1)))
              = [128, 5, 10, 15, 20, 17, 30, 27, 40, 45, 34, 39, 60, 57, 55, 185]"
    by code_simp
  have e2: "aesEncryptor ?c2 (map2 (XOR) (state ?c2) (map2 (XOR) (accumulator ?c2) (k1 ?c2)))
              = [16, 18, 20, 22, 24, 26, 28, 30, 0, 2, 4, 6, 8, 10, 12, 136]"
    by code_simp
  have e3: "aesEncryptor ?c3
              (map2 (XOR)
                 (aesEncryptor ?c3 (map2 (XOR) (state ?c3) (take 16 (accumulator ?c3))))
                 (map2 (XOR) (Padding (drop 16 (accumulator ?c3))) (k2 ?c3)))
              = [207, 203, 199, 195, 223, 219, 215, 211, 71, 194, 205, 200, 211, 214, 216, 86]"
    by code_simp
  from Sum_last_block [OF i1, of "[]"] h1 e1
  have "Sum ?c1 [] = Inr [128, 5, 10, 15, 20, 17, 30, 27, 40, 45, 34, 39, 60, 57, 55, 185]"
    by simp
  moreover from Sum_last_block [OF i2, of "[]"] h2 e2
  have "Sum ?c2 [] = Inr [16, 18, 20, 22, 24, 26, 28, 30, 0, 2, 4, 6, 8, 10, 12, 136]"
    by simp
  moreover from Sum_last_block [OF i3, of "[]"] h3 e3
  have "Sum ?c3 []
          = Inr [207, 203, 199, 195, 223, 219, 215, 211, 71, 194, 205, 200, 211, 214, 216, 86]"
    by simp
  ultimately show ?thesis by (simp only: simp_thms)
qed

section \<open>C3: Sum and the finished flag\<close>

lemma Write_finished: "finished c \<Longrightarrow> Write c p = Inl errAlreadyFinished"
  by (simp add: Write_def)

lemma Write_after_Sum:
  assumes "cmac_inv c" and "\<not> finished c"
  shows "\<exists>c_local out c'. Sum_body c b = Inr (c_local, out) \<and> finished c_local \<and>
           Sum c b = Inr out \<and> Write c p = Inr (c', length p)"
proof -
  from Sum_ok [OF assms(1), of b] obtain y where y: "Sum c b = Inr (b @ y)" by blast
  then obtain c_local where cl: "Sum_body c b = Inr (c_local, b @ y)"
    by (auto simp: Sum_def bindE_def split: sum.splits prod.splits)
  from Write_ok [OF assms, of p] obtain c' where "Write c p = Inr (c', length p)" by blast
  then show ?thesis using y cl Sum_body_finished [OF cl] by blast
qed

text \<open>
  No context a caller can hold is ever finished, so \<open>Write\<close> never returns the
  already-finalized error.
\<close>

lemma Write_never_rejected:
  assumes "\<And>k. block_cipher (E k)" and "reachable E c"
  shows "\<exists>c'. Write c p = Inr (c', length p)"
proof -
  from reachable_inv [OF assms] have "cmac_inv c" "\<not> finished c" by simp_all
  from Write_ok [OF this, of p] show ?thesis by blast
qed

text \<open>
  Claim C3 says that after \<open>Sum\<close> a \<open>Write\<close> on the same context fails with the
  already-finalized error.  \<open>Sum\<close> assigns \<open>finished = true\<close>, but it has a value
  receiver, so the assignment marks the copy it works on.  On a context made by
  \<open>NewCmac\<close> with a 16-byte key: inside \<open>Sum\<close> the copy ends finished, the caller's
  context is not finished, and a following \<open>Write\<close> of one byte returns \<open>(1, nil)\<close> and
  takes the byte into the accumulator.
\<close>

theorem Sum_then_Write_accepted:
  "bindE (NewCmac sample_cipher (take 16 tv_key)) (\<lambda>c.
     bindE (Sum_body c []) (\<lambda>(c_local, tag).
     bindE (Write c [0x01]) (\<lambda>(c', n).
     Inr (finished c_local, finished c, n, accumulator c'))))
   = Inr (True, False, 1, [0x01])"
  by code_simp

section \<open>C5: S2V\<close>

text \<open>
  Claim C5.  For a key that \<open>cmac.Sum\<close> accepts, \<open>s2v\<close> returns the value of the
  specified fold \<open>S2V_spec\<close>: \<open>CMAC(key, one)\<close> on the empty list; otherwise, from
  \<open>D = CMAC(key, zero)\<close>, \<open>D = double(D) XOR CMAC(key, element)\<close> for the elements from
  first to last, then \<open>T\<close> is the message with \<open>D\<close> XORed into its last 16 bytes when the
  message has at least 16 bytes and \<open>double(D) XOR pad(message)\<close> otherwise, and the
  result is \<open>CMAC(key, T)\<close>.
\<close>

theorem s2v_refines_spec:
  assumes "block_cipher (E ky)" and "length ky = 16 \<or> length ky = 24 \<or> length ky = 32"
  shows "s2v E ky aad message = Inr (S2V_spec E ky aad message)"
  using assms by (rule s2v_eq_S2V_spec)

theorem s2v_refines_spec_witness:
  "s2v sample_cipher (take 16 tv_key) [tv_ad] tv_plaintext
     = Inr [142, 186, 162, 210, 214, 226, 250, 3, 110, 88, 70, 52, 62, 8, 104, 224] \<and>
   s2v sample_cipher (take 16 tv_key) [] tv_plaintext
     = Inr [0, 3, 6, 5, 12, 15, 10, 9, 24, 27, 30, 29, 20, 23, 18, 150]"
proof -
  have bc: "block_cipher (sample_cipher (take 16 tv_key))" by (rule block_cipher_sample)
  have kl: "length (take 16 tv_key) = 16 \<or> length (take 16 tv_key) = 24
              \<or> length (take 16 tv_key) = 32"
    by (simp add: tv_key_def)
  have e1: "S2V_spec sample_cipher (take 16 tv_key) [tv_ad] tv_plaintext
              = [142, 186, 162, 210, 214, 226, 250, 3, 110, 88, 70, 52, 62, 8, 104, 224]"
    by code_simp
  have e2: "S2V_spec sample_cipher (take 16 tv_key) [] tv_plaintext
              = [0, 3, 6, 5, 12, 15, 10, 9, 24, 27, 30, 29, 20, 23, 18, 150]"
    by code_simp
  show ?thesis
    using s2v_refines_spec [of sample_cipher "take 16 tv_key" "[tv_ad]" tv_plaintext, OF bc kl]
      s2v_refines_spec [of sample_cipher "take 16 tv_key" "[]" tv_plaintext, OF bc kl]
    by (simp only: e1 e2 simp_thms)
qed

section \<open>C7: construction and the format of the sealed output\<close>



section \<open>C8 and C10: the single-AAD entry points\<close>


text \<open>
  Claim C10.  \<open>Seal\<close> and \<open>Open\<close> are \<open>SealWithMultipleAAD\<close> and \<open>OpenWithMultipleAAD\<close> on
  the one-element list of their associated data, also when that is empty.  On a
  one-element list \<open>s2v\<close> takes the path of the non-empty list: it starts from
  \<open>CMAC(key, zero)\<close>, folds the element once and finishes with the message; it does not
  return \<open>CMAC(key, one)\<close> of the empty list.
\<close>

theorem single_aad_entry_points:
  "Seal E a dst nonce plaintext ad = SealWithMultipleAAD E a dst plaintext [ad] \<and>
   Open E a dst nonce ciphertext ad = OpenWithMultipleAAD E a dst ciphertext [ad] \<and>
   s2v E ky [ad] plaintext =
     bindE (cmac_Sum E ky zero) (\<lambda>d0.
     bindE (dbl_bytes d0) (\<lambda>dd.
     bindE (cmac_Sum E ky ad) (\<lambda>m.
     bindE (Xor dd m) (\<lambda>d.
     bindE (if length plaintext \<ge> 16 then xorEnd plaintext d
            else bindE (dbl_bytes d) (\<lambda>dd'. Xor dd' (Padding plaintext))) (\<lambda>t.
     cmac_Sum E ky t)))))"
  by (simp add: Seal_def Open_def s2v_def bindE_def split: sum.splits)

lemma s2v_empty_list_differs:
  "s2v sample_cipher (take 16 tv_key) [[]] tv_plaintext
     \<noteq> s2v sample_cipher (take 16 tv_key) [] tv_plaintext"
  by code_simp

section \<open>C4: the failure contract of Open\<close>

text \<open>
  Claim C4.  On an input shorter than 17 bytes \<open>Open\<close> returns the ciphertext-length
  error.  On a longer input (and a valid key) it decrypts the bytes after the first 16,
  recomputes the tag \<open>t\<close> over the result, and returns the integrity error exactly when
  \<open>t\<close> differs from the first 16 bytes of the input; otherwise it returns \<open>dst\<close> followed
  by the plaintext.  An error result carries no plaintext.
\<close>

theorem Open_failure_contract:
  assumes "\<And>k. block_cipher (E k)"
    and "length (siv_key a) = 32 \<or> length (siv_key a) = 48 \<or> length (siv_key a) = 64"
  shows "(length ct < 17 \<longrightarrow>
            OpenWithMultipleAAD E a dst ct aad = Inl errInvalidCiphertextLength) \<and>
         (17 \<le> length ct \<longrightarrow>
            (\<exists>iv pt t.
               bitAnd (take 16 ct) siv_mask = Inr iv \<and>
               CTR_XORKeyStream (E (drop (length (siv_key a) div 2) (siv_key a))) iv
                 (drop 16 ct) = Inr pt \<and>
               s2v E (take (length (siv_key a) div 2) (siv_key a)) aad pt = Inr t \<and>
               (t \<noteq> take 16 ct \<longrightarrow>
                  OpenWithMultipleAAD E a dst ct aad = Inl errIntegrityError) \<and>
               (t = take 16 ct \<longrightarrow>
                  OpenWithMultipleAAD E a dst ct aad = Inr (dst @ pt))))"
proof (intro conjI impI)
  assume "length ct < 17"
  then show "OpenWithMultipleAAD E a dst ct aad = Inl errInvalidCiphertextLength"
    by (rule Open_short)
next
  assume "17 \<le> length ct"
  from Open_long [of E a ct aad dst, OF assms this] obtain iv pt t where
    "bitAnd (take 16 ct) siv_mask = Inr iv"
    "CTR_XORKeyStream (E (drop (length (siv_key a) div 2) (siv_key a))) iv (drop 16 ct) = Inr pt"
    "s2v E (take (length (siv_key a) div 2) (siv_key a)) aad pt = Inr t"
    "OpenWithMultipleAAD E a dst ct aad =
       (if t = take 16 ct then Inr (dst @ pt) else Inl errIntegrityError)" by blast
  then show "\<exists>iv pt t.
       bitAnd (take 16 ct) siv_mask = Inr iv \<and>
       CTR_XORKeyStream (E (drop (length (siv_key a) div 2) (siv_key a))) iv
         (drop 16 ct) = Inr pt \<and>
       s2v E (take (length (siv_key a) div 2) (siv_key a)) aad pt = Inr t \<and>
       (t \<noteq> take 16 ct \<longrightarrow>
          OpenWithMultipleAAD E a dst ct aad = Inl errIntegrityError) \<and>
       (t = take 16 ct \<longrightarrow>
          OpenWithMultipleAAD E a dst ct aad = Inr (dst @ pt))"
    by (intro exI [of _ iv] exI [of _ pt] exI [of _ t]) simp
qed

theorem Open_failure_contract_witness:
  "OpenWithMultipleAAD sample_cipher \<lparr>siv_key = tv_key\<rparr> []
     [142, 186, 162, 210, 214, 226, 250, 3, 110, 88, 70, 52, 62, 8, 104, 224] [tv_ad]
     = Inl errInvalidCiphertextLength \<and>
   OpenWithMultipleAAD sample_cipher \<lparr>siv_key = tv_key\<rparr> []
     [142, 186, 162, 210, 214, 226, 250, 3, 110, 88, 70, 52, 62, 8, 104, 224,
      111, 105, 99, 101, 118, 113, 123, 124, 15, 11, 7, 3, 31, 27] [tv_ad]
     = Inl errIntegrityError \<and>
   OpenWithMultipleAAD sample_cipher \<lparr>siv_key = tv_key\<rparr> []
     [142, 186, 162, 210, 214, 226, 250, 3, 110, 88, 70, 52, 62, 8, 104, 224,
      111, 105, 99, 101, 119, 113, 123, 124, 15, 11, 7, 3, 31, 27] [tv_ad]
     = Inr tv_plaintext"
proof -
  let ?a = "\<lparr>siv_key = tv_key\<rparr>"
  let ?short = "[142, 186, 162, 210, 214, 226, 250, 3, 110, 88, 70, 52, 62, 8, 104, 224] :: bytes"
  let ?bad = "[142, 186, 162, 210, 214, 226, 250, 3, 110, 88, 70, 52, 62, 8, 104, 224,
               111, 105, 99, 101, 118, 113, 123, 124, 15, 11, 7, 3, 31, 27] :: bytes"
  let ?good = "[142, 186, 162, 210, 214, 226, 250, 3, 110, 88, 70, 52, 62, 8, 104, 224,
                111, 105, 99, 101, 119, 113, 123, 124, 15, 11, 7, 3, 31, 27] :: bytes"
  have kl: "length (siv_key ?a) = 32 \<or> length (siv_key ?a) = 48 \<or> length (siv_key ?a) = 64"
    by (simp add: length_tv_key)
  have hk: "length (siv_key ?a) div 2 = 16" by (simp add: length_tv_key)
  note c = Open_failure_contract [of sample_cipher ?a _ "[]" "[tv_ad]", OF block_cipher_sample kl]
  have s: "OpenWithMultipleAAD sample_cipher ?a [] ?short [tv_ad] = Inl errInvalidCiphertextLength"
    using c [of ?short] by simp
  from c [of ?bad] obtain iv pt t where b:
    "bitAnd (take 16 ?bad) siv_mask = Inr iv"
    "CTR_XORKeyStream (sample_cipher (drop 16 (siv_key ?a))) iv (drop 16 ?bad) = Inr pt"
    "s2v sample_cipher (take 16 (siv_key ?a)) [tv_ad] pt = Inr t"
    "t \<noteq> take 16 ?bad \<longrightarrow>
       OpenWithMultipleAAD sample_cipher ?a [] ?bad [tv_ad] = Inl errIntegrityError"
    unfolding hk by auto
  have "bindE (bitAnd (take 16 ?bad) siv_mask) (\<lambda>iv.
        bindE (CTR_XORKeyStream (sample_cipher (drop 16 (siv_key ?a))) iv (drop 16 ?bad)) (\<lambda>pt.
        bindE (s2v sample_cipher (take 16 (siv_key ?a)) [tv_ad] pt) (\<lambda>t.
        Inr (t = take 16 ?bad)))) = Inr False"
    by code_simp
  then have "t \<noteq> take 16 ?bad" unfolding b(1) bindE_Inr b(2) b(3) by simp
  with b(4) have bad: "OpenWithMultipleAAD sample_cipher ?a [] ?bad [tv_ad] = Inl errIntegrityError"
    by blast
  from c [of ?good] obtain iv' pt' t' where g:
    "bitAnd (take 16 ?good) siv_mask = Inr iv'"
    "CTR_XORKeyStream (sample_cipher (drop 16 (siv_key ?a))) iv' (drop 16 ?good) = Inr pt'"
    "s2v sample_cipher (take 16 (siv_key ?a)) [tv_ad] pt' = Inr t'"
    "t' = take 16 ?good \<longrightarrow>
       OpenWithMultipleAAD sample_cipher ?a [] ?good [tv_ad] = Inr ([] @ pt')"
    unfolding hk by auto
  have "bindE (bitAnd (take 16 ?good) siv_mask) (\<lambda>iv.
        bindE (CTR_XORKeyStream (sample_cipher (drop 16 (siv_key ?a))) iv (drop 16 ?good)) (\<lambda>pt.
        bindE (s2v sample_cipher (take 16 (siv_key ?a)) [tv_ad] pt) (\<lambda>t.
        Inr (t = take 16 ?good, pt = tv_plaintext)))) = Inr (True, True)"
    by code_simp
  then have "t' = take 16 ?good \<and> pt' = tv_plaintext"
    unfolding g(1) bindE_Inr g(2) g(3) by simp
  with g(4) have good: "OpenWithMultipleAAD sample_cipher ?a [] ?good [tv_ad] = Inr tv_plaintext"
    by simp
  from s bad good show ?thesis by (simp only: simp_thms)
qed

section \<open>C1: sealing and opening\<close>

text \<open>
  Claim C1, as stated, fails on the empty plaintext.  Sealing it gives the 16 bytes of
  the tag alone, and \<open>Open\<close> rejects every input shorter than 17 bytes.  Here the key
  has 32 bytes and the AAD list is empty.
\<close>

theorem Open_Seal_empty_plaintext_counterexample:
  "SealWithMultipleAAD sample_cipher \<lparr>siv_key = tv_key\<rparr> [] [] []
     = Inr [0, 3, 6, 5, 12, 15, 10, 9, 24, 27, 30, 29, 20, 23, 18, 150] \<and>
   OpenWithMultipleAAD sample_cipher \<lparr>siv_key = tv_key\<rparr> []
     [0, 3, 6, 5, 12, 15, 10, 9, 24, 27, 30, 29, 20, 23, 18, 150] []
     = Inl errInvalidCiphertextLength"
  by code_simp

text \<open>
  Claim C1, amended.  For every key of 32, 48 or 64 bytes, every non-empty plaintext
  (of any length, so also of every length from 1 to 127) and every AAD list (empty, with
  empty elements, with several elements), \<open>SealWithMultipleAAD\<close> on a nil \<open>dst\<close> returns
  \<open>16 + len(plaintext)\<close> bytes, and \<open>OpenWithMultipleAAD\<close> on them with the same key and
  AAD list succeeds and returns \<open>dst\<close> followed by the plaintext.
\<close>

theorem Open_Seal_roundtrip:
  assumes "\<And>k. block_cipher (E k)"
    and "length (siv_key a) = 32 \<or> length (siv_key a) = 48 \<or> length (siv_key a) = 64"
    and "plaintext \<noteq> []"
  shows "\<exists>ct. SealWithMultipleAAD E a [] plaintext aad = Inr ct \<and>
              length ct = 16 + length plaintext \<and>
              OpenWithMultipleAAD E a dst ct aad = Inr (dst @ plaintext)"
  using assms by (rule Open_Seal)

theorem Open_Seal_roundtrip_witness:
  "SealWithMultipleAAD sample_cipher \<lparr>siv_key = tv_key\<rparr> [] tv_plaintext [tv_ad, [], [0x01]]
     = Inr [108, 81, 87, 45, 31, 33, 39, 208, 206, 248, 230, 148, 158, 168, 202, 221,
            141, 130, 150, 154, 190, 178, 166, 175, 47, 171, 167, 163, 63, 187] \<and>
   OpenWithMultipleAAD sample_cipher \<lparr>siv_key = tv_key\<rparr> []
     [108, 81, 87, 45, 31, 33, 39, 208, 206, 248, 230, 148, 158, 168, 202, 221,
      141, 130, 150, 154, 190, 178, 166, 175, 47, 171, 167, 163, 63, 187] [tv_ad, [], [0x01]]
     = Inr tv_plaintext"
proof -
  let ?a = "\<lparr>siv_key = tv_key\<rparr>"
  have kl: "length (siv_key ?a) = 32 \<or> length (siv_key ?a) = 48 \<or> length (siv_key ?a) = 64"
    by (simp add: length_tv_key)
  have ne: "tv_plaintext \<noteq> []" by (simp add: tv_plaintext_def)
  have e: "SealWithMultipleAAD sample_cipher ?a [] tv_plaintext [tv_ad, [], [0x01]]
             = Inr [108, 81, 87, 45, 31, 33, 39, 208, 206, 248, 230, 148, 158, 168, 202, 221,
                    141, 130, 150, 154, 190, 178, 166, 175, 47, 171, 167, 163, 63, 187]"
    by code_simp
  from Open_Seal_roundtrip
         [of sample_cipher ?a tv_plaintext "[tv_ad, [], [0x01]]" "[]", OF block_cipher_sample kl ne]
  show ?thesis unfolding e by simp
qed

end
